theory Spec2Isabelle
  imports Complex_Main "HOL-Library.Log_Nat" "HOL-Library.Signed_Division"
begin

unbundle bit_operations_syntax

section \<open>Single and double precision arithmetic\<close>

text \<open>
  A finite \<^verbatim>\<open>float\<close> or \<^verbatim>\<open>double\<close> is modelled by the real number it denotes. Every
  arithmetic operation of the source is the exact operation followed by rounding to the
  nearest representable value, ties to even, as IEEE 754 prescribes. \<open>rnd p d\<close> rounds to
  a significand of \<open>p\<close> bits whose smallest subnormal is \<open>2 ^ -d\<close>: the scaled magnitude
  \<open>s\<close> counts units of that subnormal, and a magnitude of more than \<open>p\<close> bits loses its low
  \<open>sh\<close> bits. Infinities and NaN have no counterpart: the model covers finite results.
\<close>

definition round_even :: "real \<Rightarrow> int" where
  "round_even x = (let f = \<lfloor>x\<rfloor>; r = x - of_int f in
     if r < 1/2 then f else if 1/2 < r then f + 1 else if even f then f else f + 1)"

definition rnd :: "nat \<Rightarrow> nat \<Rightarrow> real \<Rightarrow> real" where
  "rnd p d x = (let s = \<bar>x\<bar> * 2 ^ d;
                    sh = floorlog 2 (nat \<lfloor>s\<rfloor>) - p
                in sgn x * (of_int (round_even (s / 2 ^ sh)) * 2 ^ sh / 2 ^ d))"

definition f32 :: "real \<Rightarrow> real" where
  "f32 = rnd 24 149"

definition f64 :: "real \<Rightarrow> real" where
  "f64 = rnd 53 1074"

definition fmul :: "real \<Rightarrow> real \<Rightarrow> real" where
  "fmul x y = f32 (x * y)"

definition fadd :: "real \<Rightarrow> real \<Rightarrow> real" where
  "fadd x y = f32 (x + y)"

definition fsub :: "real \<Rightarrow> real \<Rightarrow> real" where
  "fsub x y = f32 (x - y)"

definition fdiv :: "real \<Rightarrow> real \<Rightarrow> real" where
  "fdiv x y = f32 (x / y)"

definition dmul :: "real \<Rightarrow> real \<Rightarrow> real" where
  "dmul x y = f64 (x * y)"

definition sqrtf :: "real \<Rightarrow> real" where
  "sqrtf x = f32 (sqrt x)"

text \<open>Truncation toward zero: the fraction is discarded.\<close>

definition trunc_int :: "real \<Rightarrow> int" where
  "trunc_int x = (if 0 \<le> x then \<lfloor>x\<rfloor> else \<lceil>x\<rceil>)"

text \<open>
  \<^verbatim>\<open>fmodf(x, y)\<close> is \<open>x - k * y\<close> for the quotient \<open>k\<close> of \<open>x / y\<close> truncated toward zero;
  the C library returns this value exactly, without rounding. The source calls it with
  \<open>0 < y\<close> only.
\<close>

definition fmodf :: "real \<Rightarrow> real \<Rightarrow> real" where
  "fmodf x y = x - y * of_int (trunc_int (x / y))"

section \<open>The host interface\<close>

datatype VSSampleType = stInteger | stFloat

record VSFormat =
  sampleType :: VSSampleType
  bitsPerSample :: int
  bytesPerSample :: int
  numPlanes :: int

text \<open>A clip of variable format has a null \<^verbatim>\<open>format\<close>, one of variable size has zero dimensions.\<close>

record VSVideoInfo =
  vi_format :: "VSFormat option"
  vi_width :: int
  vi_height :: int

definition isConstantFormat :: "VSVideoInfo \<Rightarrow> bool" where
  "isConstantFormat vi \<longleftrightarrow> vi_height vi > 0 \<and> vi_width vi > 0 \<and> vi_format vi \<noteq> None"

definition INT_MAX :: int where
  "INT_MAX = 2147483647"

definition INT_MIN :: int where
  "INT_MIN = - 2147483648"

definition int64ToIntS :: "int \<Rightarrow> int" where
  "int64ToIntS i = (if i > INT_MAX then INT_MAX else if i < INT_MIN then INT_MIN else i)"

text \<open>
  The arguments of the filter as the host hands them over: the video info of \<^verbatim>\<open>clip\<close>,
  \<^verbatim>\<open>n\<close> as the \<^verbatim>\<open>int\<close> it is stored in, the mandatory array \<^verbatim>\<open>factors\<close>, and the optional
  arrays \<^verbatim>\<open>planes\<close> and \<^verbatim>\<open>qps\<close>. \<^verbatim>\<open>propNumElements\<close> is \<open>-1\<close> for a key that is absent.
\<close>

record args =
  arg_clip :: VSVideoInfo
  arg_n :: "int option"
  arg_factors :: "real list"
  arg_planes :: "int list option"
  arg_qps :: "real list option"

definition propNumElements :: "'a list option \<Rightarrow> int" where
  "propNumElements v = (case v of None \<Rightarrow> - 1 | Some xs \<Rightarrow> int (length xs))"

definition propGetArray :: "'a list option \<Rightarrow> 'a list" where
  "propGetArray v = (case v of None \<Rightarrow> [] | Some xs \<Rightarrow> xs)"

text \<open>
  What the surroundings decide: whether invoking \<^verbatim>\<open>resize.Point\<close> and \<^verbatim>\<open>std.Crop\<close> reports an
  error, whether \<^verbatim>\<open>fftwf_alloc_real\<close> returns memory, and the transform a plan of FFTW
  executes on an \<open>n \<times> n\<close> buffer.
\<close>

datatype r2r_kind = FFTW_REDFT10 | FFTW_REDFT01

record host =
  resize_error :: "string option"
  crop_error :: "string option"
  alloc_real :: bool
  plan_r2r_2d :: "nat \<Rightarrow> r2r_kind \<Rightarrow> real list \<Rightarrow> real list"

section \<open>The filter instance\<close>

text \<open>
  \<^verbatim>\<open>DCTFilterData\<close>, without the node reference and the per-thread buffer table. The block
  size is kept as a natural number: it is stored only after \<open>n < 0\<close> has been refused.
\<close>

record DCTFilterData =
  d_vi :: VSVideoInfo
  d_process :: "bool list"
  d_peak :: int
  d_n :: nat
  d_qps :: "real list"
  d_factors :: "real list"
  d_dct :: "real list \<Rightarrow> real list"
  d_idct :: "real list \<Rightarrow> real list"

text \<open>
  Every way \<^verbatim>\<open>dctfilterCreate\<close> ends without a clip: the strings it throws, an error of an
  invoked plugin, and the two undefined operations on \<^verbatim>\<open>int\<close> it can reach.
\<close>

datatype error =
    BlockSizeError
  | FormatError
  | PlaneRangeError
  | PlaneTwiceError
  | FactorCountError
  | FactorRangeError
  | QpsCountError
  | MallocError
  | InvokeError string
  | DivisionByZero
  | SignedOverflow

fun what :: "error \<Rightarrow> string" where
  "what BlockSizeError = ''n must be power of two and > 1''"
| "what FormatError = ''only constant format 8-16 bit integer and 32 bit float input supported''"
| "what PlaneRangeError = ''plane index out of range''"
| "what PlaneTwiceError = ''plane specified twice''"
| "what FactorCountError = ''the number of factors must be equal to either n or n*n''"
| "what FactorRangeError = ''factor must be between 0.0 and 1.0 (inclusive)''"
| "what QpsCountError = ''the number of qps must be equal to either n or n*n''"
| "what MallocError = ''malloc failure (buffer)''"
| "what (InvokeError msg) = msg"
| "what DivisionByZero = ''''"
| "what SignedOverflow = ''''"

text \<open>
  The clip handed back is the chain of filters put in front of the input clip; a stage
  acts on the frame dimensions as the plugin it names does.
\<close>

datatype stage = Resize int int | DCTFilter | Crop int int

fun stage_size :: "stage \<Rightarrow> int \<times> int \<Rightarrow> int \<times> int" where
  "stage_size (Resize w h) _ = (w, h)"
| "stage_size DCTFilter (w, h) = (w, h)"
| "stage_size (Crop right bottom) (w, h) = (w - right, h - bottom)"

definition clip_size :: "VSVideoInfo \<Rightarrow> stage list \<Rightarrow> int \<times> int" where
  "clip_size vi stages = fold stage_size stages (vi_width vi, vi_height vi)"

text \<open>
  \<open>Failed\<close>: the function returned before \<^verbatim>\<open>createFilter\<close>. \<open>Created d out\<close>: the instance
  \<open>d\<close> was registered, and \<open>out\<close> holds the resulting clip or the error of the final crop.
\<close>

datatype outcome =
    Failed error
  | Created (created_data: DCTFilterData) (created_out: "string + stage list")

fun is_created :: "outcome \<Rightarrow> bool" where
  "is_created (Failed e) = False"
| "is_created (Created d out) = True"

section \<open>dctfilterCreate\<close>

definition padding :: "int \<Rightarrow> int \<Rightarrow> int" where
  "padding n sz = (if sz AND (2 * n - 1) \<noteq> 0 then 2 * n - sz smod (2 * n) else 0)"

fun select_planes :: "int \<Rightarrow> int list \<Rightarrow> bool list \<Rightarrow> error + bool list" where
  "select_planes np [] pr = Inr pr"
| "select_planes np (v # vs) pr =
     (let n = int64ToIntS v in
      if n < 0 \<or> n \<ge> np then Inl PlaneRangeError
      else if pr ! nat n then Inl PlaneTwiceError
      else select_planes np vs (pr[nat n := True]))"

text \<open>Lines 186 and 187: \<^verbatim>\<open>n\<close> defaults to 8.\<close>

definition block_size :: "args \<Rightarrow> int" where
  "block_size a = (case arg_n a of None \<Rightarrow> 8 | Some v \<Rightarrow> v)"

text \<open>Lines 188 to 225: the checks of \<^verbatim>\<open>n\<close>, the format, \<^verbatim>\<open>planes\<close> and \<^verbatim>\<open>factors\<close>.\<close>

definition validate :: "args \<Rightarrow> error + (int \<times> int \<times> int \<times> bool list)" where
  "validate a =
    (let vi = arg_clip a;
         n = block_size a
     in if n < 0 \<or> n AND (n - 1) \<noteq> 0 then Inl BlockSizeError
     else if 2 * n > INT_MAX then Inl SignedOverflow
     else if 2 * n = 0 \<and> (vi_width vi AND (2 * n - 1) \<noteq> 0 \<or> vi_height vi AND (2 * n - 1) \<noteq> 0)
       then Inl DivisionByZero
     else let padWidth = padding n (vi_width vi);
              padHeight = padding n (vi_height vi)
     in if \<not> isConstantFormat vi
           \<or> (sampleType (the (vi_format vi)) = stInteger \<and> bitsPerSample (the (vi_format vi)) > 16)
           \<or> (sampleType (the (vi_format vi)) = stFloat \<and> bitsPerSample (the (vi_format vi)) \<noteq> 32)
       then Inl FormatError
     else let m = propNumElements (arg_planes a) in
       case select_planes (numPlanes (the (vi_format vi))) (propGetArray (arg_planes a))
              (replicate 3 (m \<le> 0)) of
         Inl e \<Rightarrow> Inl e
       | Inr process \<Rightarrow>
           let nfactors = int (length (arg_factors a)) in
           if nfactors \<noteq> n \<and> n * n > INT_MAX then Inl SignedOverflow
           else if nfactors \<noteq> n \<and> nfactors \<noteq> n * n then Inl FactorCountError
           else if list_ex (\<lambda>f. f < 0 \<or> f > 1) (arg_factors a) then Inl FactorRangeError
           else Inr (n, padWidth, padHeight, process))"

text \<open>Lines 235 to 256: the clip is replaced by a resized one when a side needs padding.\<close>

definition pad_clip :: "host \<Rightarrow> VSVideoInfo \<Rightarrow> int \<Rightarrow> int \<Rightarrow> error + VSVideoInfo" where
  "pad_clip h vi padWidth padHeight =
    (if padWidth \<noteq> 0 \<or> padHeight \<noteq> 0 then
       if vi_width vi + padWidth > INT_MAX \<or> vi_height vi + padHeight > INT_MAX
         then Inl SignedOverflow
       else case resize_error h of
           Some msg \<Rightarrow> Inl (InvokeError msg)
         | None \<Rightarrow> Inr (vi\<lparr>vi_width := vi_width vi + padWidth, vi_height := vi_height vi + padHeight\<rparr>)
     else Inr vi)"

text \<open>
  Lines 258 to 268. The vector is resized to \<open>n * n\<close> zeros and then filled: directly from
  \<open>nfactors\<close> values, or as the outer product when there are exactly \<open>n\<close> of them.
\<close>

definition expand_factors :: "nat \<Rightarrow> real list \<Rightarrow> real list" where
  "expand_factors n factors =
    (let norm = fdiv 1 (f32 (of_nat (n * n * 4)));
         zero = replicate (n * n) 0
     in if length factors \<noteq> n then
          fold (\<lambda>i v. v[i := fmul (f32 (factors ! i)) norm]) [0..<length factors] zero
        else
          fold (\<lambda>y v. fold (\<lambda>x v. v[n * y + x := fmul (f32 (dmul (factors ! y) (factors ! x))) norm])
                  [0..<n] v) [0..<n] zero)"

text \<open>
  The separable form written out in full: the \<open>n * n\<close> products \<open>f[y] * f[x]\<close> in row-major
  order, as a caller computes them in double precision to pass the expanded array.
\<close>

definition outer_product :: "nat \<Rightarrow> real list \<Rightarrow> real list" where
  "outer_product n fs = map (\<lambda>i. dmul (fs ! (i div n)) (fs ! (i mod n))) [0..<n * n]"

text \<open>
  Lines 270 to 298. Without \<^verbatim>\<open>qps\<close> the vector stays zero. Otherwise it is filled like the
  factors, scaled by the peak value for integer samples, and the first row and column are
  rescaled.
\<close>

definition expand_qps :: "nat \<Rightarrow> VSFormat \<Rightarrow> real list option \<Rightarrow> error + real list" where
  "expand_qps n fmt qps_arg =
    (let zero = replicate (n * n) 0;
         nqps = propNumElements qps_arg
     in if nqps > 0 then
          let qps = propGetArray qps_arg in
          if nqps \<noteq> int n \<and> nqps \<noteq> int (n * n) then Inl QpsCountError
          else
            let v1 = (if nqps \<noteq> int n then
                        fold (\<lambda>i v. v[i := f32 (qps ! i)]) [0..<length qps] zero
                      else
                        fold (\<lambda>y v. fold (\<lambda>x v. v[n * y + x := f32 (dmul (qps ! y) (qps ! x))])
                                [0..<n] v) [0..<n] zero);
                v2 = (if sampleType fmt = stInteger then
                        fold (\<lambda>i v. v[i := fmul (v ! i)
                                 (f32 (of_int (push_bit (nat (bitsPerSample fmt)) 1 - 1)))])
                          [0..<n * n] v1
                      else v1);
                v3 = v2[0 := fmul (v2 ! 0) 2];
                v4 = fold (\<lambda>i v. v[i := fmul (v ! i) (sqrtf 2)]) [1..<n] v3;
                v5 = fold (\<lambda>i v. v[n * i := fmul (v ! (n * i)) (sqrtf 2)]) [1..<n] v4
            in Inr v5
        else Inr zero)"

definition dctfilterCreate :: "host \<Rightarrow> args \<Rightarrow> outcome" where
  "dctfilterCreate h a =
    (case validate a of
       Inl e \<Rightarrow> Failed e
     | Inr (n, padWidth, padHeight, process) \<Rightarrow>
        let fmt = the (vi_format (arg_clip a));
            peak = (if sampleType fmt = stInteger
                    then push_bit (nat (bitsPerSample fmt)) 1 - 1 else 0)
        in case pad_clip h (arg_clip a) padWidth padHeight of
             Inl e \<Rightarrow> Failed e
           | Inr vi \<Rightarrow>
               if n * n * 4 > INT_MAX then Failed SignedOverflow
               else case expand_qps (nat n) fmt (arg_qps a) of
                   Inl e \<Rightarrow> Failed e
                 | Inr qps \<Rightarrow>
                     if \<not> alloc_real h then Failed MallocError
                     else
                       let d = \<lparr> d_vi = vi, d_process = process, d_peak = peak,
                                 d_n = nat n, d_qps = qps,
                                 d_factors = expand_factors (nat n) (arg_factors a),
                                 d_dct = plan_r2r_2d h (nat n) FFTW_REDFT10,
                                 d_idct = plan_r2r_2d h (nat n) FFTW_REDFT01 \<rparr>
                       in if padWidth \<noteq> 0 \<or> padHeight \<noteq> 0 then
                            case crop_error h of
                              Some msg \<Rightarrow> Created d (Inl msg)
                            | None \<Rightarrow> Created d (Inr [Resize (vi_width vi) (vi_height vi),
                                                        DCTFilter, Crop padWidth padHeight])
                          else Created d (Inr [DCTFilter]))"

section \<open>Frames\<close>

text \<open>
  A plane as \<^verbatim>\<open>getFrameWidth\<close>, \<^verbatim>\<open>getFrameHeight\<close>, \<^verbatim>\<open>getStride\<close> and the read or write pointer
  present it: its samples in row-major order, \<open>pl_stride\<close> samples from one row to the next
  (\<^verbatim>\<open>getStride(src, plane) / sizeof(T)\<close>). A sample is the number it holds; an integer format
  holds whole numbers. A frame is the list of its planes.
\<close>

record plane =
  pl_width :: nat
  pl_height :: nat
  pl_stride :: nat
  pl_data :: "real list"

type_synonym frame = "plane list"

text \<open>
  \<^verbatim>\<open>newVideoFrame2\<close>: plane \<open>i\<close> of the new frame is plane \<open>planes[i]\<close> of \<open>planeSrc[i]\<close> where that
  is not null, and newly allocated memory (\<open>fresh\<close>, of unknown content) otherwise.
\<close>

definition newVideoFrame2 :: "frame \<Rightarrow> frame option list \<Rightarrow> nat list \<Rightarrow> frame" where
  "newVideoFrame2 fresh planeSrc planes =
     map (\<lambda>i. case planeSrc ! i of None \<Rightarrow> fresh ! i | Some f \<Rightarrow> f ! (planes ! i))
       [0..<length fresh]"

section \<open>process\<close>

text \<open>
  A loop \<^verbatim>\<open>for (v = 0; v < bound; v += n)\<close> whose body acts on a state. With \<open>n = 0\<close> and
  \<open>0 < bound\<close> it never ends: the result is \<open>None\<close>.
\<close>

partial_function (option) for_step ::
    "nat \<Rightarrow> nat \<Rightarrow> (nat \<Rightarrow> 's \<Rightarrow> 's option) \<Rightarrow> nat \<Rightarrow> 's \<Rightarrow> 's option" where
  "for_step n bound body v s =
     (if v < bound then Option.bind (body v s) (for_step n bound body (v + n)) else Some s)"

text \<open>Lines 75 to 81: the block at column \<open>x\<close> of the rows from \<open>srcp\<close> is copied to the buffer.\<close>

definition copy_in :: "nat \<Rightarrow> nat \<Rightarrow> real list \<Rightarrow> nat \<Rightarrow> nat \<Rightarrow> real list \<Rightarrow> real list" where
  "copy_in n stride src srcp x buffer =
     fold (\<lambda>yy b. fold (\<lambda>xx b. b[n * yy + xx := src ! (srcp + stride * yy + x + xx)]) [0..<n] b)
       [0..<n] buffer"

text \<open>Line 88: \<^verbatim>\<open>buffer[i] -= fmodf(buffer[i], qps[i])\<close>.\<close>

definition quantize :: "real \<Rightarrow> real \<Rightarrow> real" where
  "quantize x q = fsub x (fmodf x q)"

text \<open>Lines 85 to 90: every coefficient is scaled and, for a positive step, quantized.\<close>

definition filter_coefficients :: "nat \<Rightarrow> real list \<Rightarrow> real list \<Rightarrow> real list \<Rightarrow> real list" where
  "filter_coefficients n factors qps buffer =
     fold (\<lambda>i b. b[i := (let c = fmul (b ! i) (factors ! i)
                          in if qps ! i > 0 then quantize c (qps ! i) else c)])
       [0..<n * n] buffer"

text \<open>
  \<^verbatim>\<open>static_cast<int>\<close> of a \<^verbatim>\<open>float\<close> discards the fraction. For a value that leaves the range of
  \<^verbatim>\<open>int\<close> the language does not define the conversion; a processor with IEEE 754 arithmetic
  signals an invalid operation and delivers some \<^verbatim>\<open>int\<close> of its own choice (\<^verbatim>\<open>INT_MIN\<close> on x86).
  That \<^verbatim>\<open>int\<close> is \<open>oor x\<close>, a parameter of everything that converts.
\<close>

definition static_cast_int :: "(real \<Rightarrow> int) \<Rightarrow> real \<Rightarrow> int" where
  "static_cast_int oor x =
     (let t = trunc_int x in if INT_MIN \<le> t \<and> t \<le> INT_MAX then t else oor x)"

text \<open>
  Lines 99 to 102: what is stored for the value \<open>v\<close> of the buffer. The template parameter
  enters through \<^verbatim>\<open>std::is_integral<T>\<close> only.
\<close>

definition store_sample :: "(real \<Rightarrow> int) \<Rightarrow> bool \<Rightarrow> int \<Rightarrow> real \<Rightarrow> real" where
  "store_sample oor is_integral peak v =
     (if is_integral then of_int (min (max (static_cast_int oor (fadd v (1/2))) 0) peak) else v)"

text \<open>Lines 94 to 104: the buffer is written to the block at column \<open>x\<close> of the rows from \<open>dstp\<close>.\<close>

definition write_back ::
    "(real \<Rightarrow> int) \<Rightarrow> bool \<Rightarrow> int \<Rightarrow> nat \<Rightarrow> nat \<Rightarrow> real list \<Rightarrow> nat \<Rightarrow> nat \<Rightarrow> real list \<Rightarrow> real list" where
  "write_back oor is_integral peak n stride buffer dstp x dst =
     fold (\<lambda>yy out. fold (\<lambda>xx out.
              out[dstp + stride * yy + x + xx := store_sample oor is_integral peak (buffer ! (n * yy + xx))])
            [0..<n] out)
       [0..<n] dst"

text \<open>Lines 75 to 104, on the pair of the thread's buffer and the samples of the output plane.\<close>

definition process_block ::
    "(real \<Rightarrow> int) \<Rightarrow> bool \<Rightarrow> DCTFilterData \<Rightarrow> nat \<Rightarrow> real list \<Rightarrow> nat \<Rightarrow> nat \<Rightarrow> nat
      \<Rightarrow> real list \<times> real list \<Rightarrow> real list \<times> real list" where
  "process_block oor is_integral d stride src srcp dstp x =
     (\<lambda>(buffer, dst).
        let b1 = copy_in (d_n d) stride src srcp x buffer;
            b2 = d_dct d b1;
            b3 = filter_coefficients (d_n d) (d_factors d) (d_qps d) b2;
            b4 = d_idct d b3
        in (b4, write_back oor is_integral (d_peak d) (d_n d) stride b4 dstp x dst))"

text \<open>
  Lines 66 to 109 for one plane. The state of the outer loop holds \<^verbatim>\<open>srcp\<close> and \<^verbatim>\<open>dstp\<close> as
  offsets into the samples; both advance by \<open>stride * n\<close>, the stride being the source's.
\<close>

definition process_plane ::
    "(real \<Rightarrow> int) \<Rightarrow> bool \<Rightarrow> DCTFilterData \<Rightarrow> plane \<Rightarrow> real list \<times> plane \<Rightarrow> (real list \<times> plane) option" where
  "process_plane oor is_integral d src =
     (\<lambda>(buffer, dst).
        map_option (\<lambda>(srcp, dstp, buffer', out). (buffer', dst\<lparr>pl_data := out\<rparr>))
          (for_step (d_n d) (pl_height src)
             (\<lambda>y (srcp, dstp, buffer', out).
                map_option (\<lambda>(buffer'', out'). (srcp + pl_stride src * d_n d,
                                                  dstp + pl_stride src * d_n d, buffer'', out'))
                  (for_step (d_n d) (pl_width src)
                     (\<lambda>x s. Some (process_block oor is_integral d (pl_stride src) (pl_data src) srcp dstp x s))
                     0 (buffer', out)))
             0 (0, 0, buffer, pl_data dst)))"

text \<open>Lines 64 and 65: the planes in turn, those not selected skipped.\<close>

fun process_planes ::
    "(real \<Rightarrow> int) \<Rightarrow> bool \<Rightarrow> DCTFilterData \<Rightarrow> frame \<Rightarrow> nat list \<Rightarrow> real list \<times> frame \<Rightarrow> (real list \<times> frame) option" where
  "process_planes oor is_integral d src [] s = Some s"
| "process_planes oor is_integral d src (p # ps) (buffer, dst) =
     (if d_process d ! p then
        Option.bind (process_plane oor is_integral d (src ! p) (buffer, dst ! p))
          (\<lambda>(buffer', out). process_planes oor is_integral d src ps (buffer', dst[p := out]))
      else process_planes oor is_integral d src ps (buffer, dst))"

definition process ::
    "(real \<Rightarrow> int) \<Rightarrow> bool \<Rightarrow> DCTFilterData \<Rightarrow> frame \<Rightarrow> real list \<Rightarrow> frame \<Rightarrow> (real list \<times> frame) option" where
  "process oor is_integral d src buffer dst =
     process_planes oor is_integral d src [0..<nat (numPlanes (the (vi_format (d_vi d))))] (buffer, dst)"

section \<open>dctfilterGetFrame\<close>

text \<open>
  The branch for \<^verbatim>\<open>arAllFramesReady\<close>. \<open>buffer\<close> is the entry of the calling thread in the
  buffer table, if there is one; \<open>alloc\<close> is what \<^verbatim>\<open>fftwf_alloc_real\<close> returns when asked;
  \<open>fresh\<close> is the memory \<^verbatim>\<open>newVideoFrame2\<close> allocates; \<open>oor\<close> is what \<^verbatim>\<open>static_cast<int>\<close>
  delivers out of range.
  The result is \<open>None\<close> when the call does not return, an error when it reports one, and the
  output frame otherwise.
\<close>

definition dctfilterGetFrame ::
    "(real \<Rightarrow> int) \<Rightarrow> real list option \<Rightarrow> real list option \<Rightarrow> frame \<Rightarrow> DCTFilterData \<Rightarrow> frame \<Rightarrow> (error + frame) option" where
  "dctfilterGetFrame oor buffer alloc fresh d src =
     (case (if buffer = None then alloc else buffer) of
        None \<Rightarrow> Some (Inl MallocError)
      | Some scratch \<Rightarrow>
          let fr = [if d_process d ! 0 then None else Some src,
                    if d_process d ! 1 then None else Some src,
                    if d_process d ! 2 then None else Some src];
              pl = [0, 1, 2];
              dst = newVideoFrame2 fresh fr pl;
              bytes = bytesPerSample (the (vi_format (d_vi d)))
          in map_option (\<lambda>(b, out). Inr out)
               (if bytes = 1 then process oor True d src scratch dst
                else if bytes = 2 then process oor True d src scratch dst
                else process oor False d src scratch dst))"

section \<open>Example inputs\<close>

text \<open>
  A reference transform for the examples: the two-dimensional transforms as FFTW documents
  them, in exact arithmetic. \<^verbatim>\<open>REDFT10\<close> is \<open>Y k = 2 * (\<Sum>j<n. X j * cos (pi * (j + 1/2) * k / n))\<close>,
  \<^verbatim>\<open>REDFT01\<close> is \<open>Y k = X 0 + 2 * (\<Sum>j=1..<n. X j * cos (pi * j * (k + 1/2) / n))\<close>, applied
  along both axes.
\<close>

definition r2r_kernel :: "nat \<Rightarrow> r2r_kind \<Rightarrow> nat \<Rightarrow> nat \<Rightarrow> real" where
  "r2r_kernel n kind j k =
     (case kind of
        FFTW_REDFT10 \<Rightarrow> 2 * cos (pi * (real j + 1/2) * real k / real n)
      | FFTW_REDFT01 \<Rightarrow> if j = 0 then 1 else 2 * cos (pi * real j * (real k + 1/2) / real n))"

definition exact_r2r_2d :: "nat \<Rightarrow> r2r_kind \<Rightarrow> real list \<Rightarrow> real list" where
  "exact_r2r_2d n kind buf =
     map (\<lambda>i. \<Sum>j1<n. \<Sum>j2<n. buf ! (n * j1 + j2)
                  * r2r_kernel n kind j1 (i div n) * r2r_kernel n kind j2 (i mod n))
       [0..<n * n]"

definition host_ok :: host where
  "host_ok = \<lparr> resize_error = None, crop_error = None, alloc_real = True,
               plan_r2r_2d = exact_r2r_2d \<rparr>"

definition YUV420P8 :: VSFormat where
  "YUV420P8 = \<lparr> sampleType = stInteger, bitsPerSample = 8, bytesPerSample = 1, numPlanes = 3 \<rparr>"

definition GRAYS :: VSFormat where
  "GRAYS = \<lparr> sampleType = stFloat, bitsPerSample = 32, bytesPerSample = 4, numPlanes = 1 \<rparr>"

text \<open>A 640 by 480 clip, the default block size 8, only the first plane selected.\<close>

definition args_luma :: args where
  "args_luma = \<lparr> arg_clip = \<lparr> vi_format = Some YUV420P8, vi_width = 640, vi_height = 480 \<rparr>,
                 arg_n = None, arg_factors = [1, 1, 1, 1, 1, 1, 1, 1],
                 arg_planes = Some [0], arg_qps = None \<rparr>"

text \<open>A 100 by 50 clip with block size 8: neither side is a multiple of 16.\<close>

definition args_pad :: args where
  "args_pad = \<lparr> arg_clip = \<lparr> vi_format = Some YUV420P8, vi_width = 100, vi_height = 50 \<rparr>,
                arg_n = Some 8, arg_factors = [1, 1, 1, 1, 1, 1, 1, 1],
                arg_planes = None, arg_qps = None \<rparr>"

text \<open>Block size 2 with separable quantization steps.\<close>

definition args_qps :: args where
  "args_qps = \<lparr> arg_clip = \<lparr> vi_format = Some YUV420P8, vi_width = 640, vi_height = 480 \<rparr>,
                arg_n = Some 2, arg_factors = [1, 1],
                arg_planes = None, arg_qps = Some [1/2, 1/4] \<rparr>"

text \<open>A frame of three flat planes, and the newly allocated planes of the same shape.\<close>

definition flat_plane :: "nat \<Rightarrow> nat \<Rightarrow> real \<Rightarrow> plane" where
  "flat_plane w h v = \<lparr> pl_width = w, pl_height = h, pl_stride = w, pl_data = replicate (w * h) v \<rparr>"

definition flat_frame :: frame where
  "flat_frame = [flat_plane 8 8 16, flat_plane 4 4 128, flat_plane 4 4 128]"

definition fresh_frame :: frame where
  "fresh_frame = [flat_plane 8 8 0, flat_plane 4 4 0, flat_plane 4 4 0]"

text \<open>Block size 2 with negative quantization steps; block size 8 with three factors.\<close>

definition args_negative_qps :: args where
  "args_negative_qps =
     \<lparr> arg_clip = \<lparr> vi_format = Some YUV420P8, vi_width = 640, vi_height = 480 \<rparr>,
       arg_n = Some 2, arg_factors = [1, 1], arg_planes = None, arg_qps = Some [- 1, - 1] \<rparr>"

definition args_three_factors :: args where
  "args_three_factors =
     \<lparr> arg_clip = \<lparr> vi_format = Some YUV420P8, vi_width = 640, vi_height = 480 \<rparr>,
       arg_n = None, arg_factors = [1, 1, 1], arg_planes = None, arg_qps = None \<rparr>"

text \<open>Block size 1 with a single factor.\<close>

definition args_block_one :: args where
  "args_block_one =
     \<lparr> arg_clip = \<lparr> vi_format = Some YUV420P8, vi_width = 640, vi_height = 480 \<rparr>,
       arg_n = Some 1, arg_factors = [1/2], arg_planes = None, arg_qps = None \<rparr>"





section \<open>Facts about rounding\<close>

lemma round_even_of_int [simp]: "round_even (of_int k) = k"
  by (simp add: round_even_def)

lemma round_even_nonneg: "0 \<le> x \<Longrightarrow> 0 \<le> round_even x"
  by (auto simp: round_even_def Let_def)

lemma round_even_le: "x \<le> of_int k \<Longrightarrow> round_even x \<le> k"
proof -
  assume le: "x \<le> of_int k"
  then have fl: "\<lfloor>x\<rfloor> \<le> k" by (simp add: floor_le_iff)
  show ?thesis
  proof (cases "\<lfloor>x\<rfloor> = k")
    case True
    with le have "x = of_int \<lfloor>x\<rfloor>" using of_int_floor_le[of x] by linarith
    then have "round_even x = \<lfloor>x\<rfloor>" by (metis round_even_of_int)
    with True show ?thesis by simp
  next
    case False
    with fl have "\<lfloor>x\<rfloor> + 1 \<le> k" by simp
    then show ?thesis by (auto simp: round_even_def Let_def)
  qed
qed

lemma floorlog2_eqI: "2 ^ (b - 1) \<le> t \<Longrightarrow> t < 2 ^ b \<Longrightarrow> 0 < b \<Longrightarrow> floorlog 2 t = b"
  by (meson floorlog_geI floorlog_leI le_antisym one_less_numeral_iff semiring_norm(76) zero_le)

lemma rnd_eval:
  assumes "2 ^ (b - 1) \<le> nat \<lfloor>\<bar>x\<bar> * 2 ^ d\<rfloor>" "nat \<lfloor>\<bar>x\<bar> * 2 ^ d\<rfloor> < 2 ^ b" "0 < b"
  shows "rnd p d x = sgn x * (of_int (round_even (\<bar>x\<bar> * 2 ^ d / 2 ^ (b - p))) * 2 ^ (b - p) / 2 ^ d)"
  using floorlog2_eqI[OF assms] by (simp add: rnd_def Let_def)

lemma rnd_zero [simp]: "rnd p d 0 = 0"
  by (simp add: rnd_def)

text \<open>A number \<open>m * 2 ^ e / 2 ^ d\<close> whose significand \<open>m\<close> has at most \<open>p\<close> bits is representable.\<close>

lemma rnd_repr:
  assumes "\<bar>m\<bar> < 2 ^ p"
  shows "rnd p d (of_int m * 2 ^ e / 2 ^ d) = of_int m * 2 ^ e / 2 ^ d"
proof (cases "m = 0")
  case True
  then show ?thesis by simp
next
  case False
  define x :: real where "x = of_int m * 2 ^ e / 2 ^ d"
  define a where "a = nat \<bar>m\<bar>"
  have a: "0 < a" "a < 2 ^ p" using False assms by (auto simp: a_def nat_less_iff)
  have s: "\<bar>x\<bar> * 2 ^ d = of_nat (a * 2 ^ e)"
    by (simp add: x_def a_def abs_mult)
  have fl: "nat \<lfloor>\<bar>x\<bar> * 2 ^ d\<rfloor> = a * 2 ^ e"
    unfolding s by (simp only: floor_of_nat nat_int)
  have lg: "floorlog 2 (a * 2 ^ e) = floorlog 2 a + e"
    using a(1) by simp
  have "floorlog 2 a \<le> p" using a(2) by (intro floorlog_leI) auto
  define sh where "sh = floorlog 2 a + e - p"
  have sh: "sh \<le> e" using \<open>floorlog 2 a \<le> p\<close> by (simp add: sh_def)
  have split: "(2::real) ^ e = 2 ^ (e - sh) * 2 ^ sh"
    using sh by (simp flip: power_add)
  have "\<bar>x\<bar> * 2 ^ d / 2 ^ sh = of_int (int a * 2 ^ (e - sh))"
    unfolding s by (simp add: split)
  then have re: "round_even (\<bar>x\<bar> * 2 ^ d / 2 ^ sh) = int a * 2 ^ (e - sh)"
    by (simp only: round_even_of_int)
  have "rnd p d x = sgn x * (of_int (int a * 2 ^ (e - sh)) * 2 ^ sh / 2 ^ d)"
    unfolding rnd_def Let_def fl lg sh_def[symmetric] re ..
  also have "of_int (int a * 2 ^ (e - sh)) * (2::real) ^ sh = of_nat a * 2 ^ e"
    by (simp add: split)
  also have "sgn x * (of_nat a * 2 ^ e / 2 ^ d) = x"
  proof -
    have "sgn x = sgn (real_of_int m)"
      unfolding x_def by (simp add: sgn_mult sgn_divide)
    moreover have "real a = \<bar>real_of_int m\<bar>"
      by (simp add: a_def)
    ultimately have "sgn x * (of_nat a * 2 ^ e / 2 ^ d)
        = (sgn (real_of_int m) * \<bar>real_of_int m\<bar>) * 2 ^ e / 2 ^ d"
      by simp
    also have "sgn (real_of_int m) * \<bar>real_of_int m\<bar> = real_of_int m"
      by (rule sgn_mult_abs)
    finally show ?thesis unfolding x_def .
  qed
  finally show ?thesis unfolding x_def .
qed

lemma rnd_of_int: "\<bar>m\<bar> < 2 ^ p \<Longrightarrow> rnd p d (of_int m) = of_int m"
  using rnd_repr[where m = m and p = p and e = d and d = d] by simp

lemma rnd_inverse_pow2: "j \<le> d \<Longrightarrow> 0 < p \<Longrightarrow> rnd p d (1 / 2 ^ j) = 1 / 2 ^ j"
  using rnd_repr[where m = 1 and p = p and e = "d - j" and d = d] by (simp add: power_diff)

lemma rnd_unit_interval:
  assumes "0 \<le> x" "x \<le> 1" "0 < p"
  shows "0 \<le> rnd p d x" "rnd p d x \<le> 1"
proof -
  define s where "s = \<bar>x\<bar> * 2 ^ d"
  define sh where "sh = floorlog 2 (nat \<lfloor>s\<rfloor>) - p"
  have r: "rnd p d x = sgn x * (of_int (round_even (s / 2 ^ sh)) * 2 ^ sh / 2 ^ d)"
    by (simp add: rnd_def Let_def s_def sh_def)
  have s0: "0 \<le> s" and s1: "s \<le> 2 ^ d" using assms by (simp_all add: s_def mult_left_le_one_le)
  have "0 \<le> round_even (s / 2 ^ sh)" using s0 by (intro round_even_nonneg) simp
  with assms(1) show "0 \<le> rnd p d x" unfolding r by (simp add: sgn_if)
  have "nat \<lfloor>s\<rfloor> \<le> 2 ^ d" using s1 by (simp add: nat_le_iff floor_le_iff) 
  also have "(2::nat) ^ d < 2 ^ (d + 1)" by simp
  finally have "nat \<lfloor>s\<rfloor> < 2 ^ (d + 1)" .
  then have "floorlog 2 (nat \<lfloor>s\<rfloor>) \<le> d + 1" by (intro floorlog_leI) auto
  with assms(3) have shd: "sh \<le> d" by (simp add: sh_def)
  have split: "(2::real) ^ d = 2 ^ (d - sh) * 2 ^ sh"
    using shd by (simp flip: power_add)
  have "s / 2 ^ sh \<le> 2 ^ (d - sh)"
    using s1 unfolding split by (simp add: field_simps)
  then have "s / 2 ^ sh \<le> of_int (2 ^ (d - sh))"
    by simp
  then have "round_even (s / 2 ^ sh) \<le> 2 ^ (d - sh)" by (rule round_even_le)
  then have "real_of_int (round_even (s / 2 ^ sh)) \<le> real_of_int (2 ^ (d - sh))"
    by (simp only: of_int_le_iff)
  then have "real_of_int (round_even (s / 2 ^ sh)) \<le> 2 ^ (d - sh)"
    by simp
  then have "of_int (round_even (s / 2 ^ sh)) * (2::real) ^ sh \<le> 2 ^ (d - sh) * 2 ^ sh"
    by (intro mult_right_mono) simp_all
  also have "\<dots> = 2 ^ d" using shd by (simp flip: power_add)
  finally have "of_int (round_even (s / 2 ^ sh)) * (2::real) ^ sh / 2 ^ d \<le> 1" by simp
  with assms(1) \<open>0 \<le> round_even (s / 2 ^ sh)\<close> show "rnd p d x \<le> 1"
    unfolding r by (auto simp: sgn_if)
qed

lemma rnd_pow2: "0 < p \<Longrightarrow> rnd p d (2 ^ j) = 2 ^ j"
  using rnd_repr[where m = 1 and p = p and e = "d + j" and d = d] by (simp add: power_add)

section \<open>Facts about a successful construction\<close>

lemma pow2_of_and_nat:
  "0 < n \<Longrightarrow> int n AND (int n - 1) = 0 \<Longrightarrow> \<exists>k. n = 2 ^ k"
proof (induction n rule: less_induct)
  case (less n)
  show ?case
  proof (cases "even n")
    case True
    then obtain q where q: "n = 2 * q" by (auto elim: evenE)
    with less.prems have q0: "0 < q" by simp
    have half: "(2 * int q - 1) div 2 = int q - 1" by presburger
    have "int n AND (int n - 1) = 2 * (int q AND (int q - 1))"
      unfolding q by (subst and_int_rec) (simp add: half)
    with less.prems have "int q AND (int q - 1) = 0" by simp
    from less.IH[OF _ q0 this] q q0 obtain k where "q = 2 ^ k" by auto
    with q have "n = 2 ^ Suc k" by simp
    then show ?thesis by blast
  next
    case False
    then obtain q where q: "n = 2 * q + 1" by (auto elim: oddE)
    have "int n AND (int n - 1) = 2 * (int q AND int q)"
      unfolding q by (subst and_int_rec) simp
    with less.prems have "q = 0" by simp
    with q have "n = 2 ^ 0" by simp
    then show ?thesis by blast
  qed
qed

lemma pow2_and: "(2::int) ^ k AND (2 ^ k - 1) = 0"
  by (metis and.commute and_exp_eq_0_iff_not_bit bit_mask_iff mask_eq_exp_minus_1 order_less_irrefl)

lemma and_pow2_mod: "0 \<le> w \<Longrightarrow> w AND (2 * 2 ^ k - 1) = w mod (2 * 2 ^ k)" for w :: int
  using take_bit_eq_mask[of "Suc k" w] by (simp add: take_bit_eq_mod mask_eq_exp_minus_1)

lemma smod_nonneg: "0 \<le> w \<Longrightarrow> 0 < m \<Longrightarrow> w smod m = w mod m" for w m :: int
  by (simp add: signed_modulo_int_def sgn_if)

lemma and_minus_one_int: "w AND (- 1) = w" for w :: int
  by simp

lemma validate_success:
  assumes "validate a = Inr (n, pw, ph, pr)"
  shows "n = block_size a" "0 < n" "n AND (n - 1) = 0" "2 * n \<le> INT_MAX"
    "pw = padding n (vi_width (arg_clip a))" "ph = padding n (vi_height (arg_clip a))"
    "0 < vi_width (arg_clip a)" "0 < vi_height (arg_clip a)" "vi_format (arg_clip a) \<noteq> None"
proof -
  from assms show n: "n = block_size a" and "n AND (n - 1) = 0" and "2 * n \<le> INT_MAX"
    and "pw = padding n (vi_width (arg_clip a))" and "ph = padding n (vi_height (arg_clip a))"
    and w: "0 < vi_width (arg_clip a)" and "0 < vi_height (arg_clip a)" and "vi_format (arg_clip a) \<noteq> None"
    unfolding validate_def Let_def isConstantFormat_def
    by (auto split: if_splits sum.splits)
  from assms have "0 \<le> n" and nz: "\<not> (2 * n = 0 \<and> vi_width (arg_clip a) AND (2 * n - 1) \<noteq> 0)"
    unfolding validate_def Let_def
    by (auto split: if_splits sum.splits)
  with w show "0 < n" by (cases "n = 0") auto
qed

lemma pad_arith:
  fixes W N :: int
  assumes "0 < N" "0 \<le> W"
  defines "p \<equiv> (if W mod N \<noteq> 0 then N - W mod N else 0)"
  shows "N dvd (W + p)" "0 \<le> p" "p < N" "p = 0 \<longleftrightarrow> N dvd W"
proof -
  define r where "r = W mod N"
  have lo: "0 \<le> r" and hi: "r < N" using assms(1) by (simp_all add: r_def)
  have p: "p = (if r \<noteq> 0 then N - r else 0)" by (simp add: p_def r_def)
  have "W + (N - W mod N) = N * (W div N + 1)"
    by (simp add: algebra_simps minus_mod_eq_mult_div[symmetric])
  then have "N dvd W + (N - W mod N)" by simp
  then show "N dvd (W + p)" unfolding p_def by (simp add: dvd_eq_mod_eq_0)
  from lo hi show "0 \<le> p" unfolding p by simp
  from lo hi assms(1) show "p < N" unfolding p by auto
  from lo hi show "p = 0 \<longleftrightarrow> N dvd W"
    unfolding p dvd_eq_mod_eq_0 r_def[symmetric] by auto
qed

lemma padding_pow2:
  assumes "0 < n" "n AND (n - 1) = 0" "0 \<le> W"
  shows "padding n W = (if W mod (2 * n) \<noteq> 0 then 2 * n - W mod (2 * n) else 0)"
proof -
  from assms(1,2) pow2_of_and_nat[of "nat n"] obtain k where "nat n = 2 ^ k" by auto
  with assms(1) have n: "n = 2 ^ k" by (metis int_nat_eq of_nat_numeral of_nat_power order_less_imp_le)
  show ?thesis
    unfolding padding_def n using assms(3)
    by (simp add: and_pow2_mod smod_nonneg)
qed

lemma create_success:
  assumes "dctfilterCreate h a = Created d out"
  obtains n pw ph pr vi qps where
    "validate a = Inr (n, pw, ph, pr)"
    "pad_clip h (arg_clip a) pw ph = Inr vi"
    "n * n * 4 \<le> INT_MAX"
    "expand_qps (nat n) (the (vi_format (arg_clip a))) (arg_qps a) = Inr qps"
    "alloc_real h"
    "d = \<lparr> d_vi = vi, d_process = pr,
           d_peak = (if sampleType (the (vi_format (arg_clip a))) = stInteger
                     then push_bit (nat (bitsPerSample (the (vi_format (arg_clip a))))) 1 - 1 else 0),
           d_n = nat n, d_qps = qps,
           d_factors = expand_factors (nat n) (arg_factors a),
           d_dct = plan_r2r_2d h (nat n) FFTW_REDFT10,
           d_idct = plan_r2r_2d h (nat n) FFTW_REDFT01 \<rparr>"
    "out = (if pw \<noteq> 0 \<or> ph \<noteq> 0 then
             case crop_error h of Some msg \<Rightarrow> Inl msg
             | None \<Rightarrow> Inr [Resize (vi_width vi) (vi_height vi), DCTFilter, Crop pw ph]
           else Inr [DCTFilter])"
  using assms unfolding dctfilterCreate_def Let_def
  by (auto split: sum.splits if_splits option.splits)

lemma pad_clip_success:
  assumes "pad_clip h vi pw ph = Inr vi'"
  shows "vi_width vi' = vi_width vi + pw" "vi_height vi' = vi_height vi + ph"
    "vi_format vi' = vi_format vi"
  using assms unfolding pad_clip_def
  by (auto split: if_splits option.splits)


section \<open>The example constructions evaluated\<close>

lemma create_luma:
  "dctfilterCreate host_ok args_luma =
     Created \<lparr> d_vi = arg_clip args_luma, d_process = [True, False, False], d_peak = 255,
               d_n = 8, d_qps = replicate 64 0,
               d_factors = expand_factors 8 (arg_factors args_luma),
               d_dct = exact_r2r_2d 8 FFTW_REDFT10, d_idct = exact_r2r_2d 8 FFTW_REDFT01 \<rparr>
       (Inr [DCTFilter])"
  by (simp add: dctfilterCreate_def validate_def block_size_def pad_clip_def expand_qps_def
      padding_def args_luma_def host_ok_def YUV420P8_def isConstantFormat_def INT_MAX_def INT_MIN_def
      int64ToIntS_def propNumElements_def propGetArray_def numeral_3_eq_3)

lemma create_pad:
  "dctfilterCreate host_ok args_pad =
     Created \<lparr> d_vi = \<lparr> vi_format = Some YUV420P8, vi_width = 112, vi_height = 64 \<rparr>,
               d_process = [True, True, True], d_peak = 255,
               d_n = 8, d_qps = replicate 64 0,
               d_factors = expand_factors 8 (arg_factors args_pad),
               d_dct = exact_r2r_2d 8 FFTW_REDFT10, d_idct = exact_r2r_2d 8 FFTW_REDFT01 \<rparr>
       (Inr [Resize 112 64, DCTFilter, Crop 12 14])"
  by (simp add: dctfilterCreate_def validate_def block_size_def pad_clip_def expand_qps_def
      padding_def args_pad_def host_ok_def YUV420P8_def isConstantFormat_def INT_MAX_def
      propNumElements_def propGetArray_def numeral_3_eq_3 signed_modulo_int_def)


section \<open>Loops that fill a vector\<close>

lemma fold_update_length [simp]:
  "length (fold (\<lambda>i v. v[ix i := F i v]) is v) = length v"
  by (induction "is" arbitrary: v) simp_all

lemma fold_update_other:
  "j \<notin> ix ` set is \<Longrightarrow> fold (\<lambda>i v. v[ix i := F i v]) is v ! j = v ! j"
  by (induction "is" arbitrary: v) auto

lemma fold_update_hit:
  assumes "distinct (map ix is)" "i \<in> set is" "ix i < length v"
  shows "fold (\<lambda>i v. v[ix i := G i (v ! ix i)]) is v ! ix i = G i (v ! ix i)"
  using assms
proof (induction "is" arbitrary: v)
  case Nil
  then show ?case by simp
next
  case (Cons a "is")
  let ?v = "v[ix a := G a (v ! ix a)]"
  show ?case
  proof (cases "i = a")
    case True
    from Cons.prems(1) have "ix a \<notin> ix ` set is" by auto
    from fold_update_other[OF this, of "\<lambda>i v. G i (v ! ix i)" ?v]
    show ?thesis using True Cons.prems(3) by simp
  next
    case False
    with Cons.prems have mem: "i \<in> set is" and d: "distinct (map ix is)"
      and nin: "ix a \<notin> ix ` set is"
      by auto
    from mem have "ix i \<in> ix ` set is" by (rule imageI)
    with nin have ne: "ix i \<noteq> ix a" by metis
    from Cons.IH[OF d mem, of ?v] Cons.prems(3) ne show ?thesis by simp
  qed
qed

lemma fold_upt_update_nth:
  assumes "j < length v"
  shows "fold (\<lambda>i v. v[i := G i (v ! i)]) [a..<b] v ! j = (if a \<le> j \<and> j < b then G j (v ! j) else v ! j)"
proof (cases "a \<le> j \<and> j < b")
  case True
  with fold_update_hit[of "\<lambda>i. i" "[a..<b]" j v G] assms show ?thesis by simp
next
  case False
  with fold_update_other[of j "\<lambda>i. i" "[a..<b]" "\<lambda>i v. G i (v ! i)" v] show ?thesis by auto
qed

lemma fold_row_length [simp]:
  "length (fold (\<lambda>y v. fold (\<lambda>x v. v[n * y + x := G y x]) [0..<n] v) ys v) = length v"
  by (induction ys arbitrary: v) simp_all

lemma fold_row_nth:
  assumes "y < m" "x < n" "n * m \<le> length v"
  shows "fold (\<lambda>y v. fold (\<lambda>x v. v[n * y + x := G y x]) [0..<n] v) [0..<m] v ! (n * y + x) = G y x"
  using assms
proof (induction m)
  case 0
  then show ?case by simp
next
  case (Suc m)
  let ?w = "fold (\<lambda>y v. fold (\<lambda>x v. v[n * y + x := G y x]) [0..<n] v) [0..<m] v"
  have len: "length ?w = length v" by simp
  have bound: "n * m + n \<le> length v" using Suc.prems(3) by simp
  show ?case
  proof (cases "y = m")
    case True
    have "fold (\<lambda>x v. v[n * m + x := G m x]) [0..<n] ?w ! (n * m + x) = G m x"
      using fold_update_hit[of "\<lambda>x. n * m + x" "[0..<n]" x ?w "\<lambda>x _. G m x"] Suc.prems(2) bound len
      by (simp add: distinct_map inj_on_def)
    with True show ?thesis by simp
  next
    case False
    with Suc.prems(1) have y: "y < m" by simp
    have "n * y + x < n * m"
    proof -
      have "n * y + x < n * y + n" using Suc.prems(2) by simp
      also have "\<dots> = n * Suc y" by simp
      also have "\<dots> \<le> n * m" using y by (intro mult_le_mono2) simp
      finally show ?thesis .
    qed
    then have "n * y + x \<notin> (\<lambda>x. n * m + x) ` set [0..<n]" by auto
    from fold_update_other[OF this, of "\<lambda>x v. G m x" ?w]
    have "fold (\<lambda>x v. v[n * m + x := G m x]) [0..<n] ?w ! (n * y + x) = ?w ! (n * y + x)" .
    also have "\<dots> = G y x" using Suc.IH[OF y Suc.prems(2)] bound by simp
    finally show ?thesis by simp
  qed
qed

lemma expand_factors_length [simp]: "length (expand_factors n fs) = n * n"
  by (simp add: expand_factors_def Let_def)

lemma expand_factors_outer:
  assumes "length fs = n" "y < n" "x < n"
  shows "expand_factors n fs ! (n * y + x)
         = fmul (f32 (dmul (fs ! y) (fs ! x))) (fdiv 1 (f32 (of_nat (n * n * 4))))"
  using assms fold_row_nth[of y n x n "replicate (n * n) 0"]
  by (simp add: expand_factors_def Let_def)

lemma expand_factors_direct:
  assumes "length fs \<noteq> n" "length fs = n * n" "i < n * n"
  shows "expand_factors n fs ! i = fmul (f32 (fs ! i)) (fdiv 1 (f32 (of_nat (n * n * 4))))"
  using assms fold_upt_update_nth[of i "replicate (n * n) 0" "\<lambda>i _. fmul (f32 (fs ! i)) (fdiv 1 (f32 (of_nat (n * n * 4))))" 0 "n * n"]
  by (simp add: expand_factors_def Let_def)

lemma norm_exact:
  assumes "n = 2 ^ k" "2 * k + 2 \<le> 149"
  shows "fdiv 1 (f32 (of_nat (n * n * 4))) = 1 / (4 * (real n)\<^sup>2)"
proof -
  have e: "(2::real) ^ (2 * k + 2) = 2 ^ k * 2 ^ k * 4"
    by (simp add: power_add power_mult flip: power_mult_distrib)
  have sq: "real (n * n * 4) = 2 ^ (2 * k + 2)"
    unfolding e by (simp add: assms(1))
  have "f32 (of_nat (n * n * 4)) = 2 ^ (2 * k + 2)"
    unfolding sq f32_def by (rule rnd_pow2) simp
  then have "fdiv 1 (f32 (of_nat (n * n * 4))) = 1 / 2 ^ (2 * k + 2)"
    unfolding fdiv_def f32_def using rnd_inverse_pow2[OF assms(2), of 24] by simp
  also have "\<dots> = 1 / (4 * (real n)\<^sup>2)"
    unfolding e by (simp add: assms(1) power2_eq_square)
  finally show ?thesis .
qed

section \<open>The attenuation matrix\<close>

lemma validate_factors:
  assumes "validate a = Inr (n, pw, ph, pr)"
  shows "int (length (arg_factors a)) = n \<or> int (length (arg_factors a)) = n * n"
    "\<forall>f\<in>set (arg_factors a). 0 \<le> f \<and> f \<le> 1"
  using assms unfolding validate_def Let_def
  by (auto split: if_splits sum.splits simp: list_ex_iff not_less)

lemma validate_other_factors:
  assumes "validate a = Inr (n, pw, ph, pr)" "int (length fs) = n * n" "n * n \<le> INT_MAX"
    "\<forall>f\<in>set fs. 0 \<le> f \<and> f \<le> 1"
  shows "validate (a\<lparr>arg_factors := fs\<rparr>) = Inr (n, pw, ph, pr)"
  using assms unfolding validate_def Let_def block_size_def
  by (auto split: if_splits sum.splits simp: list_ex_iff not_less)

lemma block_size_pow2:
  assumes "validate a = Inr (n, pw, ph, pr)" "n * n * 4 \<le> INT_MAX"
  obtains k where "nat n = 2 ^ k" "2 * k + 2 \<le> 149"
proof -
  note vs = validate_success[OF assms(1)]
  from vs(2,3) pow2_of_and_nat[of "nat n"] obtain k where k: "nat n = 2 ^ k" by auto
  have "2 * k + 2 \<le> 149"
  proof (rule ccontr)
    assume "\<not> 2 * k + 2 \<le> 149"
    then have "16 \<le> k" by simp
    then have "(2::nat) ^ 16 \<le> 2 ^ k" by (intro power_increasing) simp_all
    then have "int (2 ^ 16) \<le> int (2 ^ k)" by (simp only: of_nat_le_iff)
    moreover have "n = int (nat n)" using vs(2) by simp
    ultimately have "65536 \<le> n" unfolding k by simp
    then have "65536 * 65536 \<le> n * n" by (intro mult_mono) simp_all
    with assms(2) show False by (simp add: INT_MAX_def)
  qed
  with k show ?thesis by (rule that)
qed

lemma outer_product_unit:
  assumes "\<forall>f\<in>set fs. 0 \<le> f \<and> f \<le> 1" "length fs = n"
  shows "\<forall>f\<in>set (outer_product n fs). 0 \<le> f \<and> f \<le> 1"
proof
  fix f assume "f \<in> set (outer_product n fs)"
  then obtain i where i: "i < n * n" and f: "f = dmul (fs ! (i div n)) (fs ! (i mod n))"
    by (auto simp: outer_product_def)
  from i have n: "0 < n" by (cases n) auto
  from i have "i div n < n" by (simp add: less_mult_imp_div_less)
  moreover from n have "i mod n < n" by simp
  ultimately have a: "0 \<le> fs ! (i div n)" "fs ! (i div n) \<le> 1" and b: "0 \<le> fs ! (i mod n)" "fs ! (i mod n) \<le> 1"
    using assms by auto
  have "0 \<le> fs ! (i div n) * fs ! (i mod n)" "fs ! (i div n) * fs ! (i mod n) \<le> 1"
    using a b by (simp_all add: mult_le_one)
  from rnd_unit_interval[OF this, of 53 1074] show "0 \<le> f \<and> f \<le> 1"
    by (simp add: f dmul_def f64_def)
qed

lemma expand_factors_outer_product:
  assumes "length fs = n" "2 \<le> n"
  shows "expand_factors n (outer_product n fs) = expand_factors n fs"
proof (rule nth_equalityI)
  show "length (expand_factors n (outer_product n fs)) = length (expand_factors n fs)" by simp
next
  fix i assume "i < length (expand_factors n (outer_product n fs))"
  then have i: "i < n * n" by simp
  from assms(2) have ne: "length (outer_product n fs) \<noteq> n"
    by (simp add: outer_product_def)
  have len: "length (outer_product n fs) = n * n" by (simp add: outer_product_def)
  from i assms(2) have yx: "i div n < n" "i mod n < n" "n * (i div n) + i mod n = i"
    by (simp_all add: less_mult_imp_div_less)
  have "expand_factors n (outer_product n fs) ! i
      = fmul (f32 (outer_product n fs ! i)) (fdiv 1 (f32 (of_nat (n * n * 4))))"
    by (rule expand_factors_direct[OF ne len i])
  also have "outer_product n fs ! i = dmul (fs ! (i div n)) (fs ! (i mod n))"
    using i by (simp add: outer_product_def)
  also have "fmul (f32 (dmul (fs ! (i div n)) (fs ! (i mod n)))) (fdiv 1 (f32 (of_nat (n * n * 4))))
      = expand_factors n fs ! (n * (i div n) + i mod n)"
    by (rule expand_factors_outer[OF assms(1) yx(1,2), symmetric])
  finally show "expand_factors n (outer_product n fs) ! i = expand_factors n fs ! i"
    by (simp only: yx(3))
qed

text \<open>
  Claim C3. In a created instance with block size \<open>n\<close> the vector \<^verbatim>\<open>factors\<close> has \<open>n * n\<close>
  entries, and entry \<open>(y, x)\<close> is the expanded factor, converted to \<^verbatim>\<open>float\<close>, times
  \<open>1 / (4 * n\<^sup>2)\<close> (a single-precision product); the expanded factor is the double product
  \<open>factors[y] * factors[x]\<close> when \<open>n\<close> factors were given and \<open>factors[n * y + x]\<close> otherwise.
  For \<open>n \<ge> 2\<close>, passing the separable form written out as its \<open>n * n\<close> products constructs
  the very same instance and clip.
\<close>

theorem C3_attenuation_matrix:
  assumes "dctfilterCreate h a = Created d out"
  shows "length (d_factors d) = d_n d * d_n d
    \<and> (\<forall>y<d_n d. \<forall>x<d_n d. d_factors d ! (d_n d * y + x) =
          fmul (f32 (if length (arg_factors a) = d_n d
                     then dmul (arg_factors a ! y) (arg_factors a ! x)
                     else arg_factors a ! (d_n d * y + x)))
               (1 / (4 * (real (d_n d))\<^sup>2)))
    \<and> (length (arg_factors a) = d_n d \<and> 2 \<le> d_n d \<longrightarrow>
          dctfilterCreate h (a\<lparr>arg_factors := outer_product (d_n d) (arg_factors a)\<rparr>) = Created d out)"
proof -
  from assms obtain n pw ph pr vi qps where
    v: "validate a = Inr (n, pw, ph, pr)" and ovf: "n * n * 4 \<le> INT_MAX"
    and dn: "d_n d = nat n" and df: "d_factors d = expand_factors (nat n) (arg_factors a)"
    by (rule create_success) simp
  note vs = validate_success[OF v] and vf = validate_factors[OF v]
  from v ovf obtain k where k: "nat n = 2 ^ k" "2 * k + 2 \<le> 149" by (rule block_size_pow2)
  note norm = norm_exact[OF k]
  let ?n = "nat n" and ?fs = "arg_factors a"
  have len: "length (d_factors d) = d_n d * d_n d" by (simp add: df dn)
  have cases: "length ?fs = ?n \<or> (length ?fs \<noteq> ?n \<and> length ?fs = ?n * ?n)"
  proof -
    from vf(1) consider "int (length ?fs) = n" | "int (length ?fs) = n * n" by blast
    then show ?thesis
    proof cases
      case 1
      then have "length ?fs = ?n" by simp
      then show ?thesis by simp
    next
      case 2
      then have "length ?fs = nat (n * n)" by simp
      also have "\<dots> = ?n * ?n" using vs(2) by (simp add: nat_mult_distrib)
      finally show ?thesis by blast
    qed
  qed
  have nth: "d_factors d ! (?n * y + x) =
          fmul (f32 (if length ?fs = ?n then dmul (?fs ! y) (?fs ! x) else ?fs ! (?n * y + x)))
               (1 / (4 * (real ?n)\<^sup>2))" if "y < ?n" "x < ?n" for y x
  proof (cases "length ?fs = ?n")
    case True
    have "d_factors d ! (?n * y + x)
        = fmul (f32 (dmul (?fs ! y) (?fs ! x))) (1 / (4 * (real ?n)\<^sup>2))"
      unfolding df by (rule expand_factors_outer[OF True that, unfolded norm])
    with True show ?thesis by simp
  next
    case False
    with cases have full: "length ?fs = ?n * ?n" by simp
    have idx: "?n * y + x < ?n * ?n"
    proof -
      have "?n * y + x < ?n * y + ?n" using that(2) by simp
      also have "\<dots> = ?n * Suc y" by simp
      also have "\<dots> \<le> ?n * ?n" using that(1) by (intro mult_le_mono2) simp
      finally show ?thesis .
    qed
    have "d_factors d ! (?n * y + x)
        = fmul (f32 (?fs ! (?n * y + x))) (1 / (4 * (real ?n)\<^sup>2))"
      unfolding df by (rule expand_factors_direct[OF False full idx, unfolded norm])
    with False show ?thesis by simp
  qed
  have same: "dctfilterCreate h (a\<lparr>arg_factors := outer_product ?n ?fs\<rparr>) = Created d out"
    if sep: "length ?fs = ?n" and two: "2 \<le> ?n"
  proof -
    have "n * n \<le> INT_MAX" using ovf zero_le_square[of n] by linarith
    moreover have "int (length (outer_product ?n ?fs)) = n * n"
      using vs(2) by (simp add: outer_product_def nat_mult_distrib[symmetric])
    moreover note outer_product_unit[OF vf(2) sep]
    ultimately have v': "validate (a\<lparr>arg_factors := outer_product ?n ?fs\<rparr>) = Inr (n, pw, ph, pr)"
      by (intro validate_other_factors[OF v])
    have "dctfilterCreate h (a\<lparr>arg_factors := outer_product ?n ?fs\<rparr>) = dctfilterCreate h a"
      unfolding dctfilterCreate_def v v'
      by (simp add: Let_def expand_factors_outer_product[OF sep two]
          split: sum.splits option.splits)
    with assms show ?thesis by simp
  qed
  from len nth same show ?thesis by (simp add: dn)
qed

theorem C3_witness:
  "d_factors (created_data (dctfilterCreate host_ok args_luma)) ! 0
     = fmul (f32 (dmul 1 1)) (1 / 256)
   \<and> dctfilterCreate host_ok (args_luma\<lparr>arg_factors := outer_product 8 (arg_factors args_luma)\<rparr>)
     = dctfilterCreate host_ok args_luma"
proof -
  note c = C3_attenuation_matrix[OF create_luma]
  have fs: "arg_factors args_luma = [1, 1, 1, 1, 1, 1, 1, 1]"
    by (simp add: args_luma_def)
  from c[THEN conjunct2, THEN conjunct1, rule_format, of 0 0]
    c[THEN conjunct2, THEN conjunct2]
  show ?thesis
    by (simp add: create_luma fs)
qed

section \<open>The quantization steps\<close>

lemma fold_stride_nth:
  assumes "j < length v" "0 < n"
  shows "fold (\<lambda>i v. v[n * i := G i (v ! (n * i))]) [a..<b] v ! j
         = (if n dvd j \<and> a \<le> j div n \<and> j div n < b then G (j div n) (v ! j) else v ! j)"
proof (cases "n dvd j \<and> a \<le> j div n \<and> j div n < b")
  case True
  then have j: "n * (j div n) = j" by simp
  have "distinct (map (\<lambda>i. n * i) [a..<b])"
    using assms(2) by (simp add: distinct_map inj_on_def)
  from fold_update_hit[OF this, of "j div n" v G] True assms(1) j
  show ?thesis by simp
next
  case False
  then have nin: "j \<notin> (\<lambda>i. n * i) ` set [a..<b]" using assms(2) by auto
  show ?thesis
    unfolding if_not_P[OF False]
    by (rule fold_update_other[OF nin, of "\<lambda>i v. G i (v ! (n * i))" v])
qed

lemma expand_qps_absent:
  "propNumElements q \<le> 0 \<Longrightarrow> expand_qps n fmt q = Inr (replicate (n * n) 0)"
  by (simp add: expand_qps_def Let_def)

lemma cell_index:
  assumes "y < n" "x < (n::nat)"
  shows "n * y + x < n * n" "(n * y + x) div n = y" "(n * y + x) mod n = x"
    "n * y + x = 0 \<longleftrightarrow> y = 0 \<and> x = 0" "n dvd (n * y + x) \<longleftrightarrow> x = 0"
proof -
  have "n * y + x < n * y + n" using assms(2) by simp
  also have "\<dots> = n * Suc y" by simp
  also have "\<dots> \<le> n * n" using assms(1) by (intro mult_le_mono2) simp
  finally show "n * y + x < n * n" .
  show "(n * y + x) div n = y" "(n * y + x) mod n = x" using assms by simp_all
  show "n * y + x = 0 \<longleftrightarrow> y = 0 \<and> x = 0" using assms by auto
  show "n dvd (n * y + x) \<longleftrightarrow> x = 0"
    using assms(2) by (auto simp: dvd_add_right_iff dest: dvd_imp_le)
qed

lemma expand_qps_present:
  assumes "expand_qps n fmt (Some q) = Inr v" "q \<noteq> []" "y < n" "x < n"
  shows "length v = n * n"
    and "v ! (n * y + x) =
      (let e = f32 (if length q = n then dmul (q ! y) (q ! x) else q ! (n * y + x));
           s = (if sampleType fmt = stInteger
                then fmul e (f32 (of_int (push_bit (nat (bitsPerSample fmt)) 1 - 1))) else e)
       in if y = 0 \<and> x = 0 then fmul s 2
          else if y = 0 \<or> x = 0 then fmul s (sqrtf 2) else s)"
proof -
  let ?zero = "replicate (n * n) (0::real)"
  let ?pk = "f32 (of_int (push_bit (nat (bitsPerSample fmt)) 1 - 1))"
  define v1 where "v1 = (if length q \<noteq> n then
                        fold (\<lambda>i v. v[i := f32 (q ! i)]) [0..<length q] ?zero
                      else
                        fold (\<lambda>y v. fold (\<lambda>x v. v[n * y + x := f32 (dmul (q ! y) (q ! x))])
                                [0..<n] v) [0..<n] ?zero)"
  define v2 where "v2 = (if sampleType fmt = stInteger then
                        fold (\<lambda>i v. v[i := fmul (v ! i) ?pk]) [0..<n * n] v1 else v1)"
  define v3 where "v3 = v2[0 := fmul (v2 ! 0) 2]"
  define v4 where "v4 = fold (\<lambda>i v. v[i := fmul (v ! i) (sqrtf 2)]) [1..<n] v3"
  define v5 where "v5 = fold (\<lambda>i v. v[n * i := fmul (v ! (n * i)) (sqrtf 2)]) [1..<n] v4"
  from assms(1,2) have "int (length q) = int n \<or> int (length q) = int n * int n" and v: "v = v5"
    unfolding expand_qps_def Let_def v1_def v2_def v3_def v4_def v5_def
    by (auto simp: propNumElements_def propGetArray_def split: if_splits)
  then have count: "length q = n \<or> length q = n * n"
    by (metis of_nat_eq_iff of_nat_mult)
  note ci = cell_index[OF assms(3,4)]
  let ?i = "n * y + x"
  have n: "0 < n" using assms(3) by simp
  have l1: "length v1 = n * n" by (simp add: v1_def)
  have l2: "length v2 = n * n" by (simp add: v2_def l1)
  have l3: "length v3 = n * n" by (simp add: v3_def l2)
  have l4: "length v4 = n * n" by (simp add: v4_def l3)
  show "length v = n * n" by (simp add: v v5_def l4)
  define e where "e = f32 (if length q = n then dmul (q ! y) (q ! x) else q ! ?i)"
  define s where "s = (if sampleType fmt = stInteger then fmul e ?pk else e)"
  have n1: "v1 ! ?i = e"
  proof (cases "length q = n")
    case True
    with fold_row_nth[OF assms(3,4), of ?zero "\<lambda>y x. f32 (dmul (q ! y) (q ! x))"]
    show ?thesis by (simp add: v1_def e_def)
  next
    case False
    with count have "length q = n * n" by simp
    with False fold_upt_update_nth[of ?i ?zero "\<lambda>i _. f32 (q ! i)" 0 "n * n"] ci(1)
    show ?thesis by (simp add: v1_def e_def)
  qed
  have n2: "v2 ! ?i = s"
    using fold_upt_update_nth[of ?i v1 "\<lambda>i old. fmul old ?pk" 0 "n * n"] ci(1) n1 l1
    by (simp add: v2_def s_def)
  have n3: "v3 ! ?i = (if y = 0 \<and> x = 0 then fmul s 2 else s)"
    using ci(1,4) n2 l2 by (auto simp: v3_def nth_list_update)
  have n4: "v4 ! ?i = (if y = 0 \<and> 1 \<le> x then fmul (v3 ! ?i) (sqrtf 2) else v3 ! ?i)"
  proof -
    have "n \<le> n * y" if "0 < y" using that by simp
    then have "n \<le> ?i" if "0 < y" using that by (simp add: trans_le_add1)
    then have "(1 \<le> ?i \<and> ?i < n) \<longleftrightarrow> (y = 0 \<and> 1 \<le> x)"
      using assms(3,4) n by (cases "y = 0") (auto simp: Suc_le_eq)
    with fold_upt_update_nth[of ?i v3 "\<lambda>i old. fmul old (sqrtf 2)" 1 n] ci(1) l3
    show ?thesis by (simp add: v4_def)
  qed
  have n5: "v5 ! ?i = (if x = 0 \<and> 1 \<le> y then fmul (v4 ! ?i) (sqrtf 2) else v4 ! ?i)"
    using fold_stride_nth[of ?i v4 n "\<lambda>i old. fmul old (sqrtf 2)" 1 n] ci l4 n assms(3)
    by (auto simp: v5_def)
  show "v ! ?i = (let e = f32 (if length q = n then dmul (q ! y) (q ! x) else q ! ?i);
           s = (if sampleType fmt = stInteger then fmul e ?pk else e)
       in if y = 0 \<and> x = 0 then fmul s 2
          else if y = 0 \<or> x = 0 then fmul s (sqrtf 2) else s)"
    unfolding v Let_def e_def[symmetric] s_def[symmetric] n5 n4 n3
    by (cases "y = 0"; cases "x = 0") simp_all
qed

lemma create_Created:
  assumes "validate a = Inr (n, pw, ph, pr)"
    "pad_clip h (arg_clip a) pw ph = Inr vi"
    "n * n * 4 \<le> INT_MAX"
    "expand_qps (nat n) (the (vi_format (arg_clip a))) (arg_qps a) = Inr qps"
    "alloc_real h"
  shows "dctfilterCreate h a =
    Created \<lparr> d_vi = vi, d_process = pr,
           d_peak = (if sampleType (the (vi_format (arg_clip a))) = stInteger
                     then push_bit (nat (bitsPerSample (the (vi_format (arg_clip a))))) 1 - 1 else 0),
           d_n = nat n, d_qps = qps,
           d_factors = expand_factors (nat n) (arg_factors a),
           d_dct = plan_r2r_2d h (nat n) FFTW_REDFT10,
           d_idct = plan_r2r_2d h (nat n) FFTW_REDFT01 \<rparr>
      (if pw \<noteq> 0 \<or> ph \<noteq> 0 then
             case crop_error h of Some msg \<Rightarrow> Inl msg
             | None \<Rightarrow> Inr [Resize (vi_width vi) (vi_height vi), DCTFilter, Crop pw ph]
           else Inr [DCTFilter])"
  using assms unfolding dctfilterCreate_def Let_def
  by (auto split: option.splits)

lemma expand_qps_result:
  "expand_qps n fmt q = Inl QpsCountError \<and> 0 < propNumElements q
       \<and> propNumElements q \<noteq> int n \<and> propNumElements q \<noteq> int (n * n)
   \<or> (\<exists>v. expand_qps n fmt q = Inr v)
       \<and> (0 < propNumElements q \<longrightarrow> propNumElements q = int n \<or> propNumElements q = int (n * n))"
  unfolding expand_qps_def Let_def by auto

lemma validate_format:
  assumes "validate a = Inr (n, pw, ph, pr)"
  shows "sampleType (the (vi_format (arg_clip a))) = stInteger \<longrightarrow> bitsPerSample (the (vi_format (arg_clip a))) \<le> 16"
    "sampleType (the (vi_format (arg_clip a))) = stFloat \<longrightarrow> bitsPerSample (the (vi_format (arg_clip a))) = 32"
  using assms unfolding validate_def Let_def
  by (auto split: if_splits sum.splits)

lemma f32_peak:
  assumes "b \<le> 16"
  shows "f32 (of_int (push_bit (nat b) 1 - 1)) = of_int (push_bit (nat b) 1 - 1)"
proof -
  have "(2::int) ^ nat b \<le> 2 ^ 16" using assms by (intro power_increasing) simp_all
  then have "\<bar>push_bit (nat b) 1 - 1 :: int\<bar> < 2 ^ 24" by (simp add: push_bit_eq_mult)
  then show ?thesis unfolding f32_def by (rule rnd_of_int)
qed

text \<open>
  Claim C4. In a created instance the vector \<^verbatim>\<open>qps\<close> has \<open>n * n\<close> entries. Without \<^verbatim>\<open>qps\<close>
  (absent or empty) all are zero. Otherwise entry \<open>(y, x)\<close> is the expanded step, converted to
  \<^verbatim>\<open>float\<close>: the double product \<open>qps[y] * qps[x]\<close> for \<open>n\<close> values and \<open>qps[n * y + x]\<close> for \<open>n * n\<close>;
  for integer samples, and only for them, it is multiplied by \<open>peak = 2 ^ bitsPerSample - 1\<close>;
  at last entry \<open>(0, 0)\<close> is multiplied by 2 and every other entry of row 0 and of column 0
  by \<^verbatim>\<open>sqrt(2.0f)\<close>. All products are single-precision products.
\<close>

theorem C4_quantization_steps:
  assumes "dctfilterCreate h a = Created d out"
  shows "length (d_qps d) = d_n d * d_n d
    \<and> (\<forall>y<d_n d. \<forall>x<d_n d. d_qps d ! (d_n d * y + x) =
         (case arg_qps a of
            None \<Rightarrow> 0
          | Some q \<Rightarrow>
              if q = [] then 0
              else let e = f32 (if length q = d_n d then dmul (q ! y) (q ! x)
                                else q ! (d_n d * y + x));
                       s = (if sampleType (the (vi_format (arg_clip a))) = stInteger
                            then fmul e (of_int (d_peak d)) else e)
                   in if y = 0 \<and> x = 0 then fmul s 2
                      else if y = 0 \<or> x = 0 then fmul s (sqrtf 2) else s))
    \<and> (sampleType (the (vi_format (arg_clip a))) = stInteger \<longrightarrow>
          d_peak d = 2 ^ nat (bitsPerSample (the (vi_format (arg_clip a)))) - 1)"
proof -
  let ?fmt = "the (vi_format (arg_clip a))"
  from assms obtain n pw ph pr vi qps where
    v: "validate a = Inr (n, pw, ph, pr)"
    and q: "expand_qps (nat n) ?fmt (arg_qps a) = Inr qps"
    and dn: "d_n d = nat n" and dq: "d_qps d = qps"
    and dp: "d_peak d = (if sampleType ?fmt = stInteger
                     then push_bit (nat (bitsPerSample ?fmt)) 1 - 1 else 0)"
    by (rule create_success) simp
  note vf = validate_format[OF v]
  have peak: "sampleType ?fmt = stInteger \<longrightarrow> d_peak d = 2 ^ nat (bitsPerSample ?fmt) - 1"
    by (simp add: dp push_bit_eq_mult)
  have pk: "f32 (of_int (push_bit (nat (bitsPerSample ?fmt)) 1 - 1)) = of_int (d_peak d)"
    if "sampleType ?fmt = stInteger"
    using f32_peak[of "bitsPerSample ?fmt"] vf(1) that by (simp add: dp)
  show ?thesis
  proof (cases "arg_qps a = None \<or> arg_qps a = Some []")
    case True
    then have "propNumElements (arg_qps a) \<le> 0" by (auto simp: propNumElements_def)
    from expand_qps_absent[OF this, of "nat n" ?fmt] q have "qps = replicate (nat n * nat n) 0" by simp
    moreover have "nat n * y + x < nat n * nat n" if "y < nat n" "x < nat n" for y x
      by (rule cell_index(1)[OF that])
    ultimately show ?thesis using True peak by (auto simp: dq dn)
  next
    case False
    then obtain qs where qs: "arg_qps a = Some qs" "qs \<noteq> []" by (cases "arg_qps a") auto
    note p = expand_qps_present[OF q[unfolded qs(1)] qs(2)]
    have "d_qps d ! (d_n d * y + x) =
        (let e = f32 (if length qs = d_n d then dmul (qs ! y) (qs ! x) else qs ! (d_n d * y + x));
             s = (if sampleType ?fmt = stInteger then fmul e (of_int (d_peak d)) else e)
         in if y = 0 \<and> x = 0 then fmul s 2
            else if y = 0 \<or> x = 0 then fmul s (sqrtf 2) else s)"
      if "y < d_n d" "x < d_n d" for y x
    proof (cases "sampleType ?fmt = stInteger")
      case True
      from p(2)[of y x] that show ?thesis
        unfolding dq dn Let_def by (simp only: True pk[OF True] if_True)
    next
      case False
      from p(2)[of y x] that show ?thesis
        unfolding dq dn Let_def by (simp only: False if_False)
    qed
    moreover have "length (d_qps d) = d_n d * d_n d"
    proof (cases "d_n d")
      case 0
      with q dn have "qps = []" unfolding expand_qps_def Let_def 
        by (auto split: if_splits)
      with 0 show ?thesis by (simp add: dq)
    next
      case (Suc m)
      with p(1)[of 0 0] dn show ?thesis by (simp add: dq)
    qed
    ultimately show ?thesis using peak qs by simp
  qed
qed

lemma create_qps_ex:
  "\<exists>v. dctfilterCreate host_ok args_qps =
     Created \<lparr> d_vi = arg_clip args_qps, d_process = [True, True, True], d_peak = 255,
               d_n = 2, d_qps = v,
               d_factors = expand_factors 2 (arg_factors args_qps),
               d_dct = exact_r2r_2d 2 FFTW_REDFT10, d_idct = exact_r2r_2d 2 FFTW_REDFT01 \<rparr>
       (Inr [DCTFilter])"
proof -
  have v: "validate args_qps = Inr (2, 0, 0, [True, True, True])"
    by (simp add: validate_def block_size_def padding_def args_qps_def YUV420P8_def
        isConstantFormat_def INT_MAX_def propNumElements_def propGetArray_def numeral_3_eq_3)
  have p: "pad_clip host_ok (arg_clip args_qps) 0 0 = Inr (arg_clip args_qps)"
    by (simp add: pad_clip_def)
  from expand_qps_result[of 2 "the (vi_format (arg_clip args_qps))" "arg_qps args_qps"]
  obtain w where w: "expand_qps (nat 2) (the (vi_format (arg_clip args_qps))) (arg_qps args_qps) = Inr w"
    by (auto simp: args_qps_def propNumElements_def)
  have "alloc_real host_ok" by (simp add: host_ok_def)
  from create_Created[OF v p _ w this]
  have "dctfilterCreate host_ok args_qps =
     Created \<lparr> d_vi = arg_clip args_qps, d_process = [True, True, True], d_peak = 255,
               d_n = 2, d_qps = w,
               d_factors = expand_factors 2 (arg_factors args_qps),
               d_dct = exact_r2r_2d 2 FFTW_REDFT10, d_idct = exact_r2r_2d 2 FFTW_REDFT01 \<rparr>
       (Inr [DCTFilter])"
    by (simp add: INT_MAX_def) (simp add: args_qps_def YUV420P8_def host_ok_def)
  then show ?thesis ..
qed

theorem C4_witness:
  "d_qps (created_data (dctfilterCreate host_ok args_qps)) ! 3
     = fmul (f32 (dmul (1/4) (1/4))) 255
   \<and> d_qps (created_data (dctfilterCreate host_ok args_qps)) ! 0
     = fmul (fmul (f32 (dmul (1/2) (1/2))) 255) 2"
proof -
  from create_qps_ex obtain v where c: "dctfilterCreate host_ok args_qps =
     Created \<lparr> d_vi = arg_clip args_qps, d_process = [True, True, True], d_peak = 255,
               d_n = 2, d_qps = v,
               d_factors = expand_factors 2 (arg_factors args_qps),
               d_dct = exact_r2r_2d 2 FFTW_REDFT10, d_idct = exact_r2r_2d 2 FFTW_REDFT01 \<rparr>
       (Inr [DCTFilter])" ..
  have q: "arg_qps args_qps = Some [1/2, 1/4]"
    and f: "sampleType (the (vi_format (arg_clip args_qps))) = stInteger"
    by (simp_all add: args_qps_def YUV420P8_def)
  note t = C4_quantization_steps[OF c, THEN conjunct2, THEN conjunct1, rule_format]
  from t[of 1 1] t[of 0 0] show ?thesis
    by (simp add: c q f)
qed

section \<open>Plane selection\<close>

lemma int64ToIntS_small: "0 \<le> int64ToIntS v \<Longrightarrow> int64ToIntS v < 3 \<Longrightarrow> int64ToIntS v = v"
  by (simp add: int64ToIntS_def INT_MAX_def INT_MIN_def split: if_splits)

lemma select_planes_sound:
  "select_planes np vs pr = Inr pr' \<Longrightarrow> np \<le> 3 \<Longrightarrow> length pr = 3 \<Longrightarrow>
     length pr' = 3 \<and> (\<forall>i<3. pr' ! i \<longleftrightarrow> pr ! i \<or> int i \<in> set vs)"
proof (induction vs arbitrary: pr)
  case Nil
  then show ?case by simp
next
  case (Cons v vs)
  let ?n = "int64ToIntS v"
  from Cons.prems(1) have range: "0 \<le> ?n" "?n < np" and fresh: "\<not> pr ! nat ?n"
    and rest: "select_planes np vs (pr[nat ?n := True]) = Inr pr'"
    by (auto simp: Let_def split: if_splits)
  from range Cons.prems(2) have v: "?n = v"
    by (intro int64ToIntS_small) auto
  from Cons.IH[OF rest Cons.prems(2)] Cons.prems(3)
  have ih: "length pr' = 3" "\<forall>i<3. pr' ! i \<longleftrightarrow> (pr[nat ?n := True]) ! i \<or> int i \<in> set vs"
    by auto
  show ?case
  proof (intro conjI allI impI)
    show "length pr' = 3" by (fact ih)
  next
    fix i :: nat
    assume i: "i < 3"
    with ih(2) have "pr' ! i \<longleftrightarrow> (pr[nat ?n := True]) ! i \<or> int i \<in> set vs" by blast
    also have "(pr[nat ?n := True]) ! i \<longleftrightarrow> pr ! i \<or> int i = v"
      using i Cons.prems(2,3) range v by (auto simp: nth_list_update)
    finally show "pr' ! i \<longleftrightarrow> pr ! i \<or> int i \<in> set (v # vs)" by auto
  qed
qed

lemma validate_planes:
  assumes "validate a = Inr (n, pw, ph, pr)"
  shows "select_planes (numPlanes (the (vi_format (arg_clip a)))) (propGetArray (arg_planes a))
           (replicate 3 (propNumElements (arg_planes a) \<le> 0)) = Inr pr"
  using assms unfolding validate_def Let_def
  by (simp split: if_splits sum.splits)

lemma create_process:
  assumes "dctfilterCreate h a = Created d out"
  shows "\<exists>n pw ph. validate a = Inr (n, pw, ph, d_process d)"
  using assms unfolding dctfilterCreate_def Let_def
  by (auto split: sum.splits if_splits option.splits)

text \<open>
  Claim C10. When \<^verbatim>\<open>planes\<close> is omitted or empty, all three plane flags of the created
  instance are set; when a non-empty list is given, the flag of a plane is set exactly if
  the plane is listed. (A format has at most three planes.)
\<close>

theorem C10_default_plane_selection:
  assumes "dctfilterCreate h a = Created d out"
    and "numPlanes (the (vi_format (arg_clip a))) \<le> 3"
  shows "length (d_process d) = 3 \<and>
         (\<forall>i<3. d_process d ! i \<longleftrightarrow>
            (arg_planes a = None \<or> arg_planes a = Some [] \<or> int i \<in> set (propGetArray (arg_planes a))))"
proof -
  from create_process[OF assms(1)] obtain n pw ph
    where "validate a = Inr (n, pw, ph, d_process d)" by blast
  from select_planes_sound[OF validate_planes[OF this] assms(2)]
  have len: "length (d_process d) = 3"
    and sel: "\<forall>i<3. d_process d ! i \<longleftrightarrow>
          replicate 3 (propNumElements (arg_planes a) \<le> 0) ! i \<or> int i \<in> set (propGetArray (arg_planes a))"
    by auto
  have "propNumElements (arg_planes a) \<le> 0 \<longleftrightarrow> arg_planes a = None \<or> arg_planes a = Some []"
    by (cases "arg_planes a") (auto simp: propNumElements_def)
  with sel len show ?thesis by auto
qed

theorem C10_witness:
  "d_process (created_data (dctfilterCreate host_ok args_luma)) ! 0
   \<and> \<not> d_process (created_data (dctfilterCreate host_ok args_luma)) ! 1
   \<and> \<not> d_process (created_data (dctfilterCreate host_ok args_luma)) ! 2"
proof -
  have np: "numPlanes (the (vi_format (arg_clip args_luma))) \<le> 3"
    by (simp add: args_luma_def YUV420P8_def)
  have planes: "arg_planes args_luma = Some [0]"
    by (simp add: args_luma_def)
  note sel = C10_default_plane_selection[OF create_luma np, THEN conjunct2, rule_format]
  from sel[of 0] sel[of 1] sel[of 2]
  show ?thesis
    by (simp add: create_luma planes propGetArray_def)
qed

section \<open>Quantizing twice\<close>

lemma trunc_int_of_int [simp]: "trunc_int (of_int k) = k"
  by (simp add: trunc_int_def)

text \<open>
  Claim C6, as amended. Quantizing twice with the same step \<open>q > 0\<close> gives what quantizing
  once gives whenever the subtraction \<open>x - fmodf(x, q)\<close> is exact, that is, its result is a
  \<^verbatim>\<open>float\<close>.
\<close>

theorem C6_idempotent_when_exact:
  assumes "0 < q" "f32 (x - fmodf x q) = x - fmodf x q"
  shows "quantize (quantize x q) q = quantize x q"
proof -
  define k where "k = trunc_int (x / q)"
  have y: "x - fmodf x q = q * of_int k" by (simp add: fmodf_def k_def)
  have once: "quantize x q = q * of_int k"
    using assms(2) by (simp add: quantize_def fsub_def y)
  have "fmodf (q * of_int k) q = 0"
    using assms(1) by (simp add: fmodf_def)
  then have "quantize (q * of_int k) q = f32 (q * of_int k)"
    by (simp add: quantize_def fsub_def)
  also have "\<dots> = q * of_int k" using assms(2) by (simp add: y)
  finally show ?thesis by (simp add: once)
qed

lemma f32_half_up: "f32 (67108865 / 134217728) = 1 / 2"
  unfolding f32_def
  by (subst rnd_eval[where b = 149]) (simp_all add: round_even_def)

lemma f32_four_tenths: "f32 (13421773 / 33554432) = 13421773 / 33554432"
  unfolding f32_def
  by (subst rnd_eval[where b = 148]) (simp_all add: round_even_def)

lemma f32_tenth: "f32 (13421773 / 134217728) = 13421773 / 134217728"
  unfolding f32_def
  by (subst rnd_eval[where b = 146]) (simp_all add: round_even_def)

lemma f32_nine_sixteenths: "f32 (9 / 16) = 9 / 16"
  unfolding f32_def
  by (subst rnd_eval[where b = 149]) (simp_all add: round_even_def)


lemma quantize_once: "quantize (9 / 16) (13421773 / 134217728) = 1 / 2"
  by (simp add: quantize_def fsub_def fmodf_def trunc_int_def f32_half_up)

lemma quantize_twice: "quantize (1 / 2) (13421773 / 134217728) = 13421773 / 33554432"
  by (simp add: quantize_def fsub_def fmodf_def trunc_int_def f32_four_tenths)

text \<open>
  Claim C6 as stated fails in single precision. For \<open>x = 0.5625\<close> and \<open>q = 0.1f\<close> (both
  \<^verbatim>\<open>float\<close> values) the exact difference \<open>x - fmodf(x, q) = 5 * q\<close> is not a \<^verbatim>\<open>float\<close> and rounds
  down to \<open>0.5\<close>, which lies below \<open>5 * q\<close>; a second quantization then yields \<open>4 * q\<close>.
\<close>

theorem C6_counterexample:
  "f32 (9 / 16) = 9 / 16 \<and> f32 (13421773 / 134217728) = 13421773 / 134217728
   \<and> (0::real) < 13421773 / 134217728
   \<and> quantize (quantize (9 / 16) (13421773 / 134217728)) (13421773 / 134217728)
       \<noteq> quantize (9 / 16) (13421773 / 134217728)"
  by (simp add: f32_nine_sixteenths f32_tenth quantize_once quantize_twice)

theorem C6_witness:
  "(0::real) < 1 / 4 \<and> f32 (9 / 16 - fmodf (9 / 16) (1 / 4)) = 9 / 16 - fmodf (9 / 16) (1 / 4)
   \<and> quantize (quantize (9 / 16) (1 / 4)) (1 / 4) = quantize (9 / 16) (1 / 4)"
proof -
  have v: "9 / 16 - fmodf (9 / 16) (1 / 4) = (1 / 2 :: real)"
    by (simp add: fmodf_def trunc_int_def)
  have e: "f32 (1 / 2) = 1 / 2"
    unfolding f32_def using rnd_inverse_pow2[of 1 149 24] by simp
  have h: "f32 (9 / 16 - fmodf (9 / 16) (1 / 4)) = 9 / 16 - fmodf (9 / 16) (1 / 4)"
    unfolding v by (rule e)
  from C6_idempotent_when_exact[OF _ h] h show ?thesis by simp
qed

section \<open>Planes that are not selected\<close>

lemma for_step_terminates:
  assumes "0 < n" "\<And>v s. body v s \<noteq> None"
  shows "for_step n bound body v s \<noteq> None"
proof (induction "bound - v" arbitrary: v s rule: less_induct)
  case less
  show ?case
  proof (cases "v < bound")
    case True
    from assms(2)[of v s] obtain s' where s': "body v s = Some s'" by auto
    from True assms(1) have "bound - (v + n) < bound - v" by simp
    from less[OF this] s' True show ?thesis
      by (subst for_step.simps) simp
  next
    case False
    then show ?thesis by (subst for_step.simps) simp
  qed
qed

lemma process_plane_terminates:
  assumes "0 < d_n d"
  shows "process_plane oor is_integral d src s \<noteq> None"
proof -
  obtain buffer dst where s: "s = (buffer, dst)" by (cases s)
  have inner: "for_step (d_n d) w (\<lambda>x s. Some (f x s)) v t \<noteq> None" for w f v and t :: "real list \<times> real list"
    by (rule for_step_terminates[OF assms]) simp
  have "for_step (d_n d) (pl_height src)
             (\<lambda>y (srcp, dstp, buffer', out).
                map_option (\<lambda>(buffer'', out'). (srcp + pl_stride src * d_n d,
                                                  dstp + pl_stride src * d_n d, buffer'', out'))
                  (for_step (d_n d) (pl_width src)
                     (\<lambda>x s. Some (process_block oor is_integral d (pl_stride src) (pl_data src) srcp dstp x s))
                     0 (buffer', out)))
             0 (0, 0, buffer, pl_data dst) \<noteq> None"
    by (rule for_step_terminates[OF assms]) (simp add: inner split_def)
  then show ?thesis unfolding process_plane_def s by simp
qed

lemma process_planes_terminates:
  assumes "0 < d_n d"
  shows "process_planes oor is_integral d src ps s \<noteq> None"
proof (induction ps arbitrary: s)
  case Nil
  then show ?case by simp
next
  case (Cons p ps)
  obtain buffer dst where s: "s = (buffer, dst)" by (cases s)
  show ?case
  proof (cases "d_process d ! p")
    case True
    from process_plane_terminates[OF assms, of oor is_integral "src ! p" "(buffer, dst ! p)"]
    obtain b' o' where "process_plane oor is_integral d (src ! p) (buffer, dst ! p) = Some (b', o')" by auto
    with True Cons.IH[of "(b', dst[p := o'])"] show ?thesis by (simp add: s)
  next
    case False
    with Cons.IH[of "(buffer, dst)"] show ?thesis by (simp add: s)
  qed
qed

lemma process_planes_keeps:
  assumes "process_planes oor is_integral d src ps (buffer, dst) = Some (buffer', dst')" "\<not> d_process d ! p"
  shows "dst' ! p = dst ! p"
  using assms(1)
proof (induction ps arbitrary: buffer dst)
  case Nil
  then show ?case by simp
next
  case (Cons q ps)
  show ?case
  proof (cases "d_process d ! q")
    case True
    with assms(2) have ne: "q \<noteq> p" by auto
    from Cons.prems True obtain b1 o1 where
      "process_planes oor is_integral d src ps (b1, dst[q := o1]) = Some (buffer', dst')"
      by (auto simp: bind_eq_Some_conv)
    from Cons.IH[OF this] ne show ?thesis by simp
  next
    case False
    with Cons.prems Cons.IH[of buffer dst] show ?thesis by simp
  qed
qed

lemma process_planes_other_input:
  assumes "\<not> d_process d ! p"
  shows "process_planes oor is_integral d (src[p := other]) ps (buffer, dst[p := other])
         = map_option (\<lambda>(b, r). (b, r[p := other])) (process_planes oor is_integral d src ps (buffer, dst))"
proof (induction ps arbitrary: buffer dst)
  case Nil
  then show ?case by simp
next
  case (Cons q ps)
  show ?case
  proof (cases "d_process d ! q")
    case True
    with assms have ne: "q \<noteq> p" "p \<noteq> q" by auto
    show ?thesis
    proof (cases "process_plane oor is_integral d (src ! q) (buffer, dst ! q)")
      case None
      with True ne show ?thesis by simp
    next
      case (Some r)
      obtain b1 o1 where r: "r = (b1, o1)" by (cases r)
      have "dst[p := other, q := o1] = dst[q := o1, p := other]"
        using ne by (simp add: list_update_swap)
      with Some True ne Cons.IH[of b1 "dst[q := o1]"] show ?thesis by (simp add: r)
    qed
  next
    case False
    with Cons.IH[of buffer dst] show ?thesis by simp
  qed
qed

text \<open>
  Claim C9. Let plane \<open>p\<close> not be selected. Whenever \<^verbatim>\<open>dctfilterGetFrame\<close> returns a frame, its
  plane \<open>p\<close> is plane \<open>p\<close> of the input; it does return one when \<open>n > 0\<close> and a buffer is at
  hand; and replacing plane \<open>p\<close> of the input by any other plane changes the outcome in
  plane \<open>p\<close> of the output only, which is the replacement: no other part of the result
  depends on that plane.
\<close>

theorem C9_plane_pass_through:
  assumes "\<not> d_process d ! p" "p < length fresh" "length fresh \<le> 3" "p < length src"
  shows "(\<forall>out. dctfilterGetFrame oor buffer alloc fresh d src = Some (Inr out) \<longrightarrow> out ! p = src ! p)
    \<and> (0 < d_n d \<and> (buffer \<noteq> None \<or> alloc \<noteq> None) \<longrightarrow>
          (\<exists>out. dctfilterGetFrame oor buffer alloc fresh d src = Some (Inr out)))
    \<and> dctfilterGetFrame oor buffer alloc fresh d (src[p := other])
        = map_option (map_sum id (\<lambda>out. out[p := other])) (dctfilterGetFrame oor buffer alloc fresh d src)"
proof -
  define fr where "fr s = [if d_process d ! 0 then None else Some s,
                    if d_process d ! 1 then None else Some s,
                    if d_process d ! 2 then None else (Some s :: frame option)]" for s
  define pl :: "nat list" where "pl = [0, 1, 2]"
  define dst where "dst s = newVideoFrame2 fresh (fr s) pl" for s
  define run where "run s scratch =
      (if bytesPerSample (the (vi_format (d_vi d))) = 1 then process oor True d s scratch (dst s)
       else if bytesPerSample (the (vi_format (d_vi d))) = 2 then process oor True d s scratch (dst s)
       else process oor False d s scratch (dst s))" for s scratch
  have gf: "dctfilterGetFrame oor buffer alloc fresh d s =
     (case (if buffer = None then alloc else buffer) of
        None \<Rightarrow> Some (Inl MallocError)
      | Some scratch \<Rightarrow> map_option (\<lambda>(b, out). Inr out) (run s scratch))" for s
    by (simp only: dctfilterGetFrame_def Let_def run_def dst_def fr_def pl_def)
  from assms(2,3) have p3: "p < 3" by simp
  then have frp: "fr s ! p = Some s" for s
    using assms(1) by (auto simp: fr_def nth_Cons' less_Suc_eq numeral_3_eq_3 numeral_2_eq_2)
  have pli: "pl ! i = i" if "i < 3" for i
    using that by (auto simp: pl_def nth_Cons' less_Suc_eq numeral_3_eq_3 numeral_2_eq_2)
  note plp = pli[OF p3]
  have dstp: "dst s ! p = s ! p" for s
    using assms(2) by (simp add: dst_def newVideoFrame2_def frp plp)
  have dst_other: "dst (src[p := other]) = (dst src)[p := other]"
  proof (rule nth_equalityI)
    show "length (dst (src[p := other])) = length ((dst src)[p := other])"
      by (simp add: dst_def newVideoFrame2_def)
  next
    fix i assume "i < length (dst (src[p := other]))"
    then have i: "i < length fresh" by (simp add: dst_def newVideoFrame2_def)
    with assms(3) have i3: "i < 3" by simp
    show "dst (src[p := other]) ! i = (dst src)[p := other] ! i"
    proof (cases "i = p")
      case True
      with assms(2,4) show ?thesis by (simp add: dstp) (simp add: dst_def newVideoFrame2_def)
    next
      case False
      note pli[OF i3]
      moreover have "fr (src[p := other]) ! i = None \<and> fr src ! i = None
          \<or> fr (src[p := other]) ! i = Some (src[p := other]) \<and> fr src ! i = Some src"
        using i3 by (auto simp: fr_def nth_Cons' less_Suc_eq numeral_3_eq_3 numeral_2_eq_2)
      ultimately show ?thesis
        using False i by (auto simp: dst_def newVideoFrame2_def)
    qed
  qed
  have run_keeps: "out ! p = src ! p" if "run src scratch = Some (b, out)" for scratch b out
    using that process_planes_keeps[OF _ assms(1)] dstp[of src]
    by (auto simp: run_def process_def split: if_splits)
  have run_other: "run (src[p := other]) scratch
        = map_option (\<lambda>(b, r). (b, r[p := other])) (run src scratch)" for scratch
    unfolding run_def process_def dst_other
    by (simp add: process_planes_other_input[OF assms(1)])
  have run_total: "run src scratch \<noteq> None" if "0 < d_n d" for scratch
    unfolding run_def process_def using process_planes_terminates[OF that] by simp
  have one: "\<forall>out. dctfilterGetFrame oor buffer alloc fresh d src = Some (Inr out) \<longrightarrow> out ! p = src ! p"
    unfolding gf using run_keeps by (auto split: option.splits if_splits)
  have two: "0 < d_n d \<and> (buffer \<noteq> None \<or> alloc \<noteq> None) \<longrightarrow>
          (\<exists>out. dctfilterGetFrame oor buffer alloc fresh d src = Some (Inr out))"
  proof
    assume h: "0 < d_n d \<and> (buffer \<noteq> None \<or> alloc \<noteq> None)"
    then have "(if buffer = None then alloc else buffer) \<noteq> None" by auto
    then obtain scratch where sc: "(if buffer = None then alloc else buffer) = Some scratch"
      by blast
    from run_total[of scratch] h obtain b out where "run src scratch = Some (b, out)" by auto
    then show "\<exists>out. dctfilterGetFrame oor buffer alloc fresh d src = Some (Inr out)"
      unfolding gf sc by simp
  qed
  have three: "dctfilterGetFrame oor buffer alloc fresh d (src[p := other])
        = map_option (map_sum id (\<lambda>out. out[p := other])) (dctfilterGetFrame oor buffer alloc fresh d src)"
    unfolding gf run_other
    by (cases "if buffer = None then alloc else buffer")
       (auto simp: option.map_comp comp_def split_def)
  from one two three show ?thesis by blast
qed

theorem C9_witness:
  "(\<exists>out. dctfilterGetFrame (\<lambda>x. INT_MIN) None (Some (replicate 64 0)) fresh_frame
             (created_data (dctfilterCreate host_ok args_luma)) flat_frame = Some (Inr out)
          \<and> out ! 1 = flat_frame ! 1)
   \<and> \<not> d_process (created_data (dctfilterCreate host_ok args_luma)) ! 1"
proof -
  let ?d = "created_data (dctfilterCreate host_ok args_luma)"
  have np: "\<not> d_process ?d ! 1" and n: "0 < d_n ?d"
    by (simp_all add: create_luma)
  have len: "1 < length fresh_frame" "length fresh_frame \<le> 3" "1 < length flat_frame"
    by (simp_all add: fresh_frame_def flat_frame_def)
  note t = C9_plane_pass_through[OF np len, where buffer = None and alloc = "Some (replicate 64 0)"
      and oor = "\<lambda>x. INT_MIN"]
  from t n obtain out where
    "dctfilterGetFrame (\<lambda>x. INT_MIN) None (Some (replicate 64 0)) fresh_frame ?d flat_frame = Some (Inr out)"
    by blast
  with t np show ?thesis by blast
qed

section \<open>Alignment of the frame dimensions\<close>

text \<open>
  Claim C8. With \<open>N = 2 * n\<close>: the instance works on a clip whose width and height are
  the least multiples of \<open>N\<close> not below the width and height of the input. When both
  input dimensions are multiples of \<open>N\<close> the output is the filter alone; otherwise the
  filter stands between a resize to the padded dimensions and a crop of exactly the added
  columns and rows (unless the crop reports an error). Whenever a clip is returned, its
  dimensions are those of the input.
\<close>

theorem C8_dimension_alignment:
  assumes "dctfilterCreate h a = Created d out"
  shows "let W = vi_width (arg_clip a); H = vi_height (arg_clip a); N = 2 * block_size a;
             W' = vi_width (d_vi d); H' = vi_height (d_vi d)
         in N dvd W' \<and> W \<le> W' \<and> W' < W + N \<and> N dvd H' \<and> H \<le> H' \<and> H' < H + N
          \<and> (if N dvd W \<and> N dvd H then out = Inr [DCTFilter]
             else case crop_error h of
                 None \<Rightarrow> out = Inr [Resize W' H', DCTFilter, Crop (W' - W) (H' - H)]
               | Some msg \<Rightarrow> out = Inl msg)
          \<and> (\<forall>stages. out = Inr stages \<longrightarrow> clip_size (arg_clip a) stages = (W, H))"
proof -
  from assms obtain n pw ph pr vi qps where
    v: "validate a = Inr (n, pw, ph, pr)" and p: "pad_clip h (arg_clip a) pw ph = Inr vi"
    and d: "d_vi d = vi"
    and out: "out = (if pw \<noteq> 0 \<or> ph \<noteq> 0 then
             case crop_error h of Some msg \<Rightarrow> Inl msg
             | None \<Rightarrow> Inr [Resize (vi_width vi) (vi_height vi), DCTFilter, Crop pw ph]
           else Inr [DCTFilter])"
    by (rule create_success) simp
  note vs = validate_success[OF v]
  let ?W = "vi_width (arg_clip a)" and ?H = "vi_height (arg_clip a)" and ?N = "2 * block_size a"
  have N: "0 < ?N" using vs(1,2) by simp
  have pw: "pw = (if ?W mod ?N \<noteq> 0 then ?N - ?W mod ?N else 0)"
    using padding_pow2[OF vs(2,3), of ?W] vs(1,5,7) by simp
  have ph: "ph = (if ?H mod ?N \<noteq> 0 then ?N - ?H mod ?N else 0)"
    using padding_pow2[OF vs(2,3), of ?H] vs(1,6,8) by simp
  have W0: "0 \<le> ?W" and H0: "0 \<le> ?H" using vs(7,8) by simp_all
  note aw = pad_arith[OF N W0, folded pw] and ah = pad_arith[OF N H0, folded ph]
  note ps = pad_clip_success[OF p]
  have dims: "vi_width (d_vi d) = ?W + pw" "vi_height (d_vi d) = ?H + ph"
    using ps d by simp_all
  have size: "\<forall>stages. out = Inr stages \<longrightarrow> clip_size (arg_clip a) stages = (?W, ?H)"
    unfolding out using ps by (auto simp: clip_size_def split: option.splits)
  have chain: "if ?N dvd ?W \<and> ?N dvd ?H then out = Inr [DCTFilter]
     else case crop_error h of
         None \<Rightarrow> out = Inr [Resize (?W + pw) (?H + ph), DCTFilter, Crop pw ph]
       | Some msg \<Rightarrow> out = Inl msg"
    unfolding out using aw(4) ah(4) ps by (auto split: option.splits)
  show ?thesis
    unfolding Let_def dims using aw ah chain size by (auto split: option.splits if_splits)
qed

theorem C8_witness:
  "created_out (dctfilterCreate host_ok args_pad) = Inr [Resize 112 64, DCTFilter, Crop 12 14]
   \<and> clip_size (arg_clip args_pad) [Resize 112 64, DCTFilter, Crop 12 14] = (100, 50)
   \<and> 16 dvd vi_width (d_vi (created_data (dctfilterCreate host_ok args_pad)))"
proof -
  have a: "vi_width (arg_clip args_pad) = 100" "vi_height (arg_clip args_pad) = 50"
    "block_size args_pad = 8" "crop_error host_ok = None"
    by (simp_all add: args_pad_def block_size_def host_ok_def)
  from C8_dimension_alignment[OF create_pad] show ?thesis
    by (simp add: create_pad Let_def a)
qed

section \<open>Refused arguments\<close>

lemma block_size_check:
  fixes n :: int
  assumes "2 \<le> n"
  shows "n AND (n - 1) \<noteq> 0 \<longleftrightarrow> \<not> (\<exists>k. n = 2 ^ k)"
proof
  assume "n AND (n - 1) \<noteq> 0"
  then show "\<not> (\<exists>k. n = 2 ^ k)" using pow2_and by auto
next
  assume np: "\<not> (\<exists>k. n = 2 ^ k)"
  show "n AND (n - 1) \<noteq> 0"
  proof
    assume "n AND (n - 1) = 0"
    with pow2_of_and_nat[of "nat n"] assms obtain k where "nat n = 2 ^ k" by auto
    with assms have "n = 2 ^ k" by (metis int_nat_eq of_nat_numeral of_nat_power order_trans zero_le_numeral)
    with np show False by blast
  qed
qed

lemma int64ToIntS_range:
  assumes "np \<le> 3"
  shows "0 \<le> int64ToIntS v \<and> int64ToIntS v < np \<longleftrightarrow> 0 \<le> v \<and> v < np"
  using assms by (auto simp: int64ToIntS_def INT_MAX_def INT_MIN_def)

lemma int64ToIntS_id: "0 \<le> v \<Longrightarrow> v < 3 \<Longrightarrow> int64ToIntS v = v"
  by (simp add: int64ToIntS_def INT_MAX_def INT_MIN_def)

lemma select_planes_error:
  "select_planes np vs pr = Inl e \<Longrightarrow> e = PlaneRangeError \<or> e = PlaneTwiceError"
  by (induction vs arbitrary: pr) (auto simp: Let_def split: if_splits)

lemma select_planes_ok_iff:
  assumes "np \<le> 3" "length pr = 3"
  shows "(\<exists>pr'. select_planes np vs pr = Inr pr')
     \<longleftrightarrow> (\<forall>v\<in>set vs. 0 \<le> v \<and> v < np \<and> \<not> pr ! nat v) \<and> distinct vs"
  using assms(2)
proof (induction vs arbitrary: pr)
  case Nil
  then show ?case by simp
next
  case (Cons v vs)
  show ?case
  proof (cases "0 \<le> v \<and> v < np \<and> \<not> pr ! nat v")
    case False
    with int64ToIntS_range[OF assms(1), of v] int64ToIntS_id[of v] assms(1)
    have "\<exists>e. select_planes np (v # vs) pr = Inl e"
      by (auto simp: Let_def)
    with False show ?thesis by auto
  next
    case True
    with assms(1) have id: "int64ToIntS v = v" by (intro int64ToIntS_id) auto
    let ?pr = "pr[nat v := True]"
    have step: "select_planes np (v # vs) pr = select_planes np vs ?pr"
      using True by (simp add: id Let_def)
    have upd: "\<not> ?pr ! nat u \<longleftrightarrow> u \<noteq> v \<and> \<not> pr ! nat u" if "0 \<le> u" "u < np" for u
      using that True assms(1) Cons.prems by (auto simp: nth_list_update split: if_splits)
    have "(\<forall>u\<in>set vs. 0 \<le> u \<and> u < np \<and> \<not> ?pr ! nat u)
       \<longleftrightarrow> (\<forall>u\<in>set vs. 0 \<le> u \<and> u < np \<and> \<not> pr ! nat u) \<and> v \<notin> set vs"
      using upd by blast
    with Cons.IH[of ?pr] Cons.prems True show ?thesis
      unfolding step by auto
  qed
qed

text \<open>
  Claim C2, as amended. Let the block size \<open>n\<close> be negative or between 2 and 16384, the format
  have at most three planes, the dimensions be at most \<open>2 ^ 30\<close>, and the resize (where one
  is needed) succeed. Then \<^verbatim>\<open>dctfilterCreate\<close> ends with one of its parameter errors, before
  the filter is created, exactly when \<open>n\<close> is negative or not a power of two, the clip is
  not of constant format with 8 to 16 bit integer or 32 bit float samples, a plane index is
  out of range or given twice, the number of factors is neither \<open>n\<close> nor \<open>n * n\<close>, a factor
  lies outside \<open>[0, 1]\<close>, or \<^verbatim>\<open>qps\<close> is non-empty with neither \<open>n\<close> nor \<open>n * n\<close> values. The
  values of \<^verbatim>\<open>qps\<close> are not examined.
\<close>

theorem C2_invalid_parameters:
  assumes n: "block_size a < 0 \<or> (2 \<le> block_size a \<and> block_size a \<le> 16384)"
    and np: "numPlanes (the (vi_format (arg_clip a))) \<le> 3"
    and dims: "vi_width (arg_clip a) \<le> 2 ^ 30" "vi_height (arg_clip a) \<le> 2 ^ 30"
    and resize: "resize_error h = None"
  shows "(\<exists>e. dctfilterCreate h a = Failed e
            \<and> e \<in> {BlockSizeError, FormatError, PlaneRangeError, PlaneTwiceError,
                    FactorCountError, FactorRangeError, QpsCountError})
     \<longleftrightarrow> (block_size a < 0 \<or> \<not> (\<exists>k. block_size a = 2 ^ k)
          \<or> \<not> isConstantFormat (arg_clip a)
          \<or> (sampleType (the (vi_format (arg_clip a))) = stInteger
                \<and> bitsPerSample (the (vi_format (arg_clip a))) > 16)
          \<or> (sampleType (the (vi_format (arg_clip a))) = stFloat
                \<and> bitsPerSample (the (vi_format (arg_clip a))) \<noteq> 32)
          \<or> (\<exists>v\<in>set (propGetArray (arg_planes a)).
                v < 0 \<or> numPlanes (the (vi_format (arg_clip a))) \<le> v)
          \<or> \<not> distinct (propGetArray (arg_planes a))
          \<or> (int (length (arg_factors a)) \<noteq> block_size a
                \<and> int (length (arg_factors a)) \<noteq> block_size a * block_size a)
          \<or> (\<exists>f\<in>set (arg_factors a). f < 0 \<or> 1 < f)
          \<or> (propGetArray (arg_qps a) \<noteq> []
                \<and> int (length (propGetArray (arg_qps a))) \<noteq> block_size a
                \<and> int (length (propGetArray (arg_qps a))) \<noteq> block_size a * block_size a))"
    (is "?L \<longleftrightarrow> ?neg \<or> ?np2 \<or> ?ncf \<or> ?bi \<or> ?bf \<or> ?pr \<or> ?pd \<or> ?fc \<or> ?fv \<or> ?qc")
proof (cases "block_size a < 0 \<or> block_size a AND (block_size a - 1) \<noteq> 0")
  case True
  then have "validate a = Inl BlockSizeError" by (simp add: validate_def)
  then have "dctfilterCreate h a = Failed BlockSizeError" by (simp add: dctfilterCreate_def)
  moreover from True n block_size_check[of "block_size a"] have "?neg \<or> ?np2" by auto
  ultimately show ?thesis by blast
next
  case False
  let ?n = "block_size a" and ?vi = "arg_clip a"
  let ?fmt = "the (vi_format ?vi)"
  from False n have n2: "2 \<le> ?n" "?n \<le> 16384" by auto
  with False block_size_check[of ?n] have good_n: "\<not> ?neg" "\<not> ?np2" by auto
  from n2 have "?n * ?n \<le> 16384 * 16384" by (intro mult_mono) simp_all
  with n2 have fits: "\<not> 2 * ?n > INT_MAX" "\<not> ?n * ?n > INT_MAX" "\<not> ?n * ?n * 4 > INT_MAX" "2 * ?n \<noteq> 0"
    by (simp_all add: INT_MAX_def)
  let ?fmt_bad = "\<not> isConstantFormat ?vi \<or> (sampleType ?fmt = stInteger \<and> bitsPerSample ?fmt > 16)
      \<or> (sampleType ?fmt = stFloat \<and> bitsPerSample ?fmt \<noteq> 32)"
  let ?sel = "select_planes (numPlanes ?fmt) (propGetArray (arg_planes a))
              (replicate 3 (propNumElements (arg_planes a) \<le> 0))"
  have v: "validate a =
     (if ?fmt_bad then Inl FormatError
      else case ?sel of
         Inl e \<Rightarrow> Inl e
       | Inr flags \<Rightarrow>
           if int (length (arg_factors a)) \<noteq> ?n \<and> int (length (arg_factors a)) \<noteq> ?n * ?n
           then Inl FactorCountError
           else if list_ex (\<lambda>f. f < 0 \<or> f > 1) (arg_factors a) then Inl FactorRangeError
           else Inr (?n, padding ?n (vi_width ?vi), padding ?n (vi_height ?vi), flags))"
    using False fits unfolding validate_def Let_def by (simp cong: sum.case_cong)
  show ?thesis
  proof (cases ?fmt_bad)
    case True
    with v have "dctfilterCreate h a = Failed FormatError" by (simp add: dctfilterCreate_def)
    with True show ?thesis by blast
  next
    case fmt_ok: False
    note v' = v[unfolded if_not_P[OF fmt_ok]]
    have sel_iff: "(\<exists>pr'. ?sel = Inr pr') \<longleftrightarrow> \<not> ?pr \<and> \<not> ?pd"
    proof (cases "propGetArray (arg_planes a) = []")
      case True
      then show ?thesis by simp
    next
      case False
      then have "\<not> propNumElements (arg_planes a) \<le> 0"
        by (cases "arg_planes a") (auto simp: propNumElements_def propGetArray_def)
      with select_planes_ok_iff[OF np, of "replicate 3 False" "propGetArray (arg_planes a)"]
      have "(\<exists>pr'. ?sel = Inr pr')
        \<longleftrightarrow> (\<forall>v\<in>set (propGetArray (arg_planes a)). 0 \<le> v \<and> v < numPlanes ?fmt
               \<and> \<not> replicate 3 False ! nat v) \<and> distinct (propGetArray (arg_planes a))"
        by simp
      also have "\<dots> \<longleftrightarrow> (\<forall>v\<in>set (propGetArray (arg_planes a)). 0 \<le> v \<and> v < numPlanes ?fmt)
               \<and> distinct (propGetArray (arg_planes a))"
        using np by (auto simp: nat_less_iff)
      finally show ?thesis by (auto simp: not_le not_less)
    qed
    show ?thesis
    proof (cases ?sel)
      case (Inl e)
      with v' have "dctfilterCreate h a = Failed e" by (simp add: dctfilterCreate_def)
      moreover from select_planes_error[OF Inl] have "e = PlaneRangeError \<or> e = PlaneTwiceError" .
      moreover from Inl sel_iff have "?pr \<or> ?pd" by auto
      ultimately show ?thesis by blast
    next
      case (Inr flags)
      with sel_iff have planes_ok: "\<not> ?pr" "\<not> ?pd" by auto
      show ?thesis
      proof (cases ?fc)
        case True
        with v' Inr have "dctfilterCreate h a = Failed FactorCountError"
          by (simp add: dctfilterCreate_def)
        with True show ?thesis by blast
      next
        case count_ok: False
        show ?thesis
        proof (cases ?fv)
          case True
          then have "list_ex (\<lambda>f. f < 0 \<or> f > 1) (arg_factors a)" by (simp add: list_ex_iff)
          with v' Inr count_ok have "dctfilterCreate h a = Failed FactorRangeError"
            by (simp add: dctfilterCreate_def)
          with True show ?thesis by blast
        next
          case values_ok: False
          then have "\<not> list_ex (\<lambda>f. f < 0 \<or> f > 1) (arg_factors a)" by (simp add: list_ex_iff)
          with v' Inr count_ok
          have valid: "validate a = Inr (?n, padding ?n (vi_width ?vi), padding ?n (vi_height ?vi), flags)"
            by simp
          note vs = validate_success[OF valid]
          let ?pw = "padding ?n (vi_width ?vi)" and ?ph = "padding ?n (vi_height ?vi)"
          have N: "0 < 2 * ?n" using n2 by simp
          have "?pw < 2 * ?n" "?ph < 2 * ?n"
            using padding_pow2[OF vs(2,3), of "vi_width ?vi"] padding_pow2[OF vs(2,3), of "vi_height ?vi"]
              pad_arith(3)[OF N, of "vi_width ?vi"] pad_arith(3)[OF N, of "vi_height ?vi"] vs(7,8)
            by simp_all
          with n2 dims have small: "\<not> vi_width ?vi + ?pw > INT_MAX" "\<not> vi_height ?vi + ?ph > INT_MAX"
            by (simp_all add: INT_MAX_def)
          then have "\<exists>vi'. pad_clip h ?vi ?pw ?ph = Inr vi'"
            unfolding pad_clip_def using resize by simp
          then obtain vi' where pad: "pad_clip h ?vi ?pw ?ph = Inr vi'" ..
          from fmt_ok good_n planes_ok count_ok values_ok
          have rhs: "(?neg \<or> ?np2 \<or> ?ncf \<or> ?bi \<or> ?bf \<or> ?pr \<or> ?pd \<or> ?fc \<or> ?fv \<or> ?qc) \<longleftrightarrow> ?qc"
            by blast
          have nat_n: "int (nat ?n) = ?n" "int (nat ?n * nat ?n) = ?n * ?n"
            using n2 by simp_all
          have qn: "0 < propNumElements (arg_qps a) \<longleftrightarrow> propGetArray (arg_qps a) \<noteq> []"
            "propNumElements (arg_qps a) = int (length (propGetArray (arg_qps a))) \<or> propGetArray (arg_qps a) = []"
            by (cases "arg_qps a"; simp add: propNumElements_def propGetArray_def)+
          from expand_qps_result[of "nat ?n" ?fmt "arg_qps a"]
          show ?thesis
          proof (elim disjE conjE exE)
            assume e: "expand_qps (nat ?n) ?fmt (arg_qps a) = Inl QpsCountError"
              and c: "0 < propNumElements (arg_qps a)" "propNumElements (arg_qps a) \<noteq> int (nat ?n)"
                "propNumElements (arg_qps a) \<noteq> int (nat ?n * nat ?n)"
            from valid pad fits e have "dctfilterCreate h a = Failed QpsCountError"
              by (simp add: dctfilterCreate_def)
            moreover from c qn have ?qc unfolding nat_n by auto
            ultimately show ?thesis unfolding rhs by blast
          next
            fix w assume e: "expand_qps (nat ?n) ?fmt (arg_qps a) = Inr w"
              and c: "0 < propNumElements (arg_qps a) \<longrightarrow>
                propNumElements (arg_qps a) = int (nat ?n) \<or> propNumElements (arg_qps a) = int (nat ?n * nat ?n)"
            from valid pad fits e have "dctfilterCreate h a = Failed MallocError
                \<or> (\<exists>d out. dctfilterCreate h a = Created d out)"
              by (auto simp: dctfilterCreate_def Let_def split: option.splits)
            then have "\<not> ?L" by auto
            moreover from c qn have "\<not> ?qc" unfolding nat_n by auto
            ultimately show ?thesis unfolding rhs by blast
          qed
        qed
      qed
    qed
  qed
qed

text \<open>
  Claim C2 as stated fails: a negative quantization step is not refused. With block size 2
  and \<^verbatim>\<open>qps = [-1, -1]\<close> the filter is created.
\<close>

theorem C2_counterexample:
  "is_created (dctfilterCreate host_ok args_negative_qps)
   \<and> arg_qps args_negative_qps = Some [- 1, - 1]
   \<and> block_size args_negative_qps = 2"
proof -
  have v: "validate args_negative_qps = Inr (2, 0, 0, [True, True, True])"
    by (simp add: validate_def block_size_def padding_def args_negative_qps_def YUV420P8_def
        isConstantFormat_def INT_MAX_def propNumElements_def propGetArray_def numeral_3_eq_3)
  have p: "pad_clip host_ok (arg_clip args_negative_qps) 0 0 = Inr (arg_clip args_negative_qps)"
    by (simp add: pad_clip_def)
  from expand_qps_result[of 2 "the (vi_format (arg_clip args_negative_qps))" "arg_qps args_negative_qps"]
  obtain w where w: "expand_qps (nat 2) (the (vi_format (arg_clip args_negative_qps)))
      (arg_qps args_negative_qps) = Inr w"
    by (auto simp: args_negative_qps_def propNumElements_def)
  have "alloc_real host_ok" by (simp add: host_ok_def)
  from create_Created[OF v p _ w this] have "is_created (dctfilterCreate host_ok args_negative_qps)"
    by (simp add: INT_MAX_def)
  then show ?thesis
    by (simp add: args_negative_qps_def block_size_def)
qed

theorem C2_witness:
  "\<not> is_created (dctfilterCreate host_ok args_three_factors)
   \<and> block_size args_three_factors = 8 \<and> length (arg_factors args_three_factors) = 3"
proof -
  have hyp: "block_size args_three_factors < 0
      \<or> (2 \<le> block_size args_three_factors \<and> block_size args_three_factors \<le> 16384)"
    "numPlanes (the (vi_format (arg_clip args_three_factors))) \<le> 3"
    "vi_width (arg_clip args_three_factors) \<le> 2 ^ 30"
    "vi_height (arg_clip args_three_factors) \<le> 2 ^ 30"
    "resize_error host_ok = None"
    by (simp_all add: args_three_factors_def block_size_def YUV420P8_def host_ok_def)
  have bad: "int (length (arg_factors args_three_factors)) \<noteq> block_size args_three_factors
      \<and> int (length (arg_factors args_three_factors))
          \<noteq> block_size args_three_factors * block_size args_three_factors"
    by (simp add: args_three_factors_def block_size_def)
  from C2_invalid_parameters[OF hyp] bad
  obtain e where "dctfilterCreate host_ok args_three_factors = Failed e" by blast
  then show ?thesis
    by (simp add: args_three_factors_def block_size_def)
qed

text \<open>
  The test of line 188 refuses negative sizes and sizes that are not a power of two, against
  its message \<^verbatim>\<open>n must be power of two and > 1\<close>: size 1 is accepted, and size 0 passes the
  test and reaches the remainder by \<open>2 * n = 0\<close> of line 192.
\<close>

lemma block_size_one_accepted:
  "is_created (dctfilterCreate host_ok args_block_one)"
proof -
  have v: "validate args_block_one = Inr (1, 0, 0, [True, True, True])"
    by (simp add: validate_def block_size_def padding_def args_block_one_def YUV420P8_def
        isConstantFormat_def INT_MAX_def propNumElements_def propGetArray_def numeral_3_eq_3)
  have p: "pad_clip host_ok (arg_clip args_block_one) 0 0 = Inr (arg_clip args_block_one)"
    by (simp add: pad_clip_def)
  have q: "expand_qps (nat 1) (the (vi_format (arg_clip args_block_one))) (arg_qps args_block_one)
      = Inr (replicate (nat 1 * nat 1) 0)"
    by (rule expand_qps_absent) (simp add: args_block_one_def propNumElements_def)
  have "alloc_real host_ok" by (simp add: host_ok_def)
  from create_Created[OF v p _ q this] show ?thesis
    by (simp add: INT_MAX_def)
qed

lemma block_size_zero_divides:
  assumes "arg_n a = Some 0" "vi_width (arg_clip a) \<noteq> 0"
  shows "dctfilterCreate h a = Failed DivisionByZero"
proof -
  have "validate a = Inl DivisionByZero"
    using assms by (simp add: validate_def block_size_def INT_MAX_def)
  then show ?thesis by (simp add: dctfilterCreate_def)
qed

section \<open>The transform pair in exact arithmetic\<close>








lemma exact_r2r_2d_length [simp]: "length (exact_r2r_2d n kind buf) = n * n"
  by (simp add: exact_r2r_2d_def)



text \<open>A whole sample within the range is stored as it is.\<close>

section \<open>One block\<close>

lemma fold_rows_length [simp]:
  "length (fold (\<lambda>y v. fold (\<lambda>x v. v[base y + x := G y x]) xs v) ys v) = length v"
  by (induction ys arbitrary: v) simp_all

lemma fold_rows_nth:
  assumes "y < m" "x < n" "\<And>y y'. y < y' \<Longrightarrow> base y + n \<le> base y'" "base y + x < length v"
  shows "fold (\<lambda>y v. fold (\<lambda>x v. v[base y + x := G y x]) [0..<n] v) [0..<m] v ! (base y + x) = G y x"
  using assms(1)
proof (induction m)
  case 0
  then show ?case by simp
next
  case (Suc m)
  let ?w = "fold (\<lambda>y v. fold (\<lambda>x v. v[base y + x := G y x]) [0..<n] v) [0..<m] v"
  show ?case
  proof (cases "y = m")
    case True
    have "fold (\<lambda>x v. v[base m + x := G m x]) [0..<n] ?w ! (base m + x) = G m x"
      using fold_update_hit[of "\<lambda>x. base m + x" "[0..<n]" x ?w "\<lambda>x _. G m x"] assms(2,4) True
      by (simp add: distinct_map inj_on_def)
    with True show ?thesis by simp
  next
    case False
    with Suc.prems have y: "y < m" by simp
    from assms(3)[OF y] assms(2) have "base y + x \<notin> (\<lambda>x. base m + x) ` set [0..<n]" by auto
    from fold_update_other[OF this, of "\<lambda>x v. G m x" ?w]
    have "fold (\<lambda>x v. v[base m + x := G m x]) [0..<n] ?w ! (base y + x) = ?w ! (base y + x)" .
    also have "\<dots> = G y x" by (rule Suc.IH[OF y])
    finally show ?thesis by simp
  qed
qed

lemma created_peak:
  assumes "dctfilterCreate h a = Created d out"
  shows "0 \<le> d_peak d"
    "sampleType (the (vi_format (arg_clip a))) = stInteger
       \<Longrightarrow> d_peak d = 2 ^ nat (bitsPerSample (the (vi_format (arg_clip a)))) - 1"
proof -
  from assms have dp: "d_peak d = (if sampleType (the (vi_format (arg_clip a))) = stInteger
       then push_bit (nat (bitsPerSample (the (vi_format (arg_clip a))))) 1 - 1 else 0)"
    by (rule create_success) simp
  then show "0 \<le> d_peak d" by (simp add: push_bit_eq_mult)
  from dp show "d_peak d = 2 ^ nat (bitsPerSample (the (vi_format (arg_clip a)))) - 1"
    if "sampleType (the (vi_format (arg_clip a))) = stInteger"
    using that by (simp add: push_bit_eq_mult)
qed

lemma copy_in_length [simp]: "length (copy_in n stride src srcp x buffer) = length buffer"
  by (simp add: copy_in_def)


lemma filter_coefficients_length [simp]:
  "length (filter_coefficients n factors qps buffer) = length buffer"
  by (simp add: filter_coefficients_def)

lemma filter_coefficients_nth:
  assumes "i < n * n" "n * n \<le> length buffer"
  shows "filter_coefficients n factors qps buffer ! i =
           (let c = fmul (buffer ! i) (factors ! i)
            in if 0 < qps ! i then quantize c (qps ! i) else c)"
proof -
  have i: "i < length buffer" using assms by simp
  show ?thesis
    unfolding filter_coefficients_def
    using fold_upt_update_nth[OF i, of "\<lambda>i old. let c = fmul old (factors ! i)
                          in if qps ! i > 0 then quantize c (qps ! i) else c" 0 "n * n"] assms(1)
    by simp
qed

lemma write_back_length [simp]:
  "length (write_back oor is_integral peak n stride buffer dstp x dst) = length dst"
  by (simp add: write_back_def)

lemma write_back_nth:
  assumes "yy < n" "xx < n" "n \<le> stride" "dstp + stride * yy + x + xx < length dst"
  shows "write_back oor is_integral peak n stride buffer dstp x dst ! (dstp + stride * yy + x + xx)
           = store_sample oor is_integral peak (buffer ! (n * yy + xx))"
proof -
  have rows: "dstp + stride * y + x + n \<le> dstp + stride * y' + x" if "y < y'" for y y'
  proof -
    from that have "stride * Suc y \<le> stride * y'" by (intro mult_le_mono2) simp
    with assms(3) show ?thesis by simp
  qed
  show ?thesis
    unfolding write_back_def
    by (rule fold_rows_nth[where base = "\<lambda>yy. dstp + stride * yy + x", OF assms(1,2) rows assms(4)])
qed

lemma process_block_eq:
  "process_block oor is_integral d stride src srcp dstp x (buffer, dst) =
     (let scratch = filter_coefficients (d_n d) (d_factors d) (d_qps d)
                      (d_dct d (copy_in (d_n d) stride src srcp x buffer))
      in (d_idct d scratch,
          write_back oor is_integral (d_peak d) (d_n d) stride (d_idct d scratch) dstp x dst))"
  by (simp add: process_block_def Let_def)

lemma expand_qps_length:
  "expand_qps n fmt q = Inr v \<Longrightarrow> length v = n * n"
  unfolding expand_qps_def Let_def by (auto split: if_splits)

lemma created_fields:
  assumes "dctfilterCreate h a = Created d out"
  shows "length (d_factors d) = d_n d * d_n d" "length (d_qps d) = d_n d * d_n d"
    "vi_format (d_vi d) = vi_format (arg_clip a)" "vi_format (arg_clip a) \<noteq> None"
    "d_dct d = plan_r2r_2d h (d_n d) FFTW_REDFT10" "d_idct d = plan_r2r_2d h (d_n d) FFTW_REDFT01"
    "0 < d_n d" "int (d_n d) = block_size a"
proof -
  from assms obtain n pw ph pr vi qps where
    v: "validate a = Inr (n, pw, ph, pr)" and pc: "pad_clip h (arg_clip a) pw ph = Inr vi"
    and q: "expand_qps (nat n) (the (vi_format (arg_clip a))) (arg_qps a) = Inr qps"
    and d: "d_vi d = vi" "d_n d = nat n" "d_qps d = qps"
      "d_factors d = expand_factors (nat n) (arg_factors a)"
      "d_dct d = plan_r2r_2d h (nat n) FFTW_REDFT10" "d_idct d = plan_r2r_2d h (nat n) FFTW_REDFT01"
    by (rule create_success) simp
  note vs = validate_success[OF v]
  show "length (d_factors d) = d_n d * d_n d" by (simp add: d)
  show "length (d_qps d) = d_n d * d_n d" using expand_qps_length[OF q] by (simp add: d)
  show "vi_format (d_vi d) = vi_format (arg_clip a)" using pad_clip_success(3)[OF pc] by (simp add: d)
  show "vi_format (arg_clip a) \<noteq> None" by (rule vs(9))
  show "d_dct d = plan_r2r_2d h (d_n d) FFTW_REDFT10" by (simp add: d)
  show "d_idct d = plan_r2r_2d h (d_n d) FFTW_REDFT01" by (simp add: d)
  show "0 < d_n d" using vs(2) by (simp add: d)
  show "int (d_n d) = block_size a" using vs(1,2) by (simp add: d)
qed

section \<open>The coefficient loop\<close>

lemma fmodf_sign:
  assumes "0 < q"
  shows "\<bar>fmodf c q\<bar> < q" "0 \<le> c \<Longrightarrow> 0 \<le> fmodf c q" "c \<le> 0 \<Longrightarrow> fmodf c q \<le> 0"
proof -
  have pos: "0 \<le> fmodf c q \<and> fmodf c q < q" if "0 \<le> c"
  proof -
    let ?k = "\<lfloor>c / q\<rfloor>"
    have "of_int ?k \<le> c / q" "c / q < of_int ?k + 1" by linarith+
    then have "of_int ?k * q \<le> c" "c < (of_int ?k + 1) * q"
      using assms by (simp_all only: pos_le_divide_eq pos_divide_less_eq)
    then have "q * of_int ?k \<le> c" "c < q * (of_int ?k + 1)"
      by (simp_all only: mult.commute)
    moreover have "trunc_int (c / q) = ?k" using that assms by (simp add: trunc_int_def)
    ultimately show ?thesis by (simp add: fmodf_def algebra_simps)
  qed
  have neg: "- q < fmodf c q \<and> fmodf c q \<le> 0" if "c < 0"
  proof -
    let ?k = "\<lceil>c / q\<rceil>"
    have "c / q \<le> of_int ?k" "of_int ?k - 1 < c / q" by linarith+
    then have "c \<le> of_int ?k * q" "(of_int ?k - 1) * q < c"
      using assms by (simp_all only: pos_divide_le_eq pos_less_divide_eq)
    then have "c \<le> q * of_int ?k" "q * (of_int ?k - 1) < c"
      by (simp_all only: mult.commute)
    moreover have "c / q < 0" using that assms by (simp add: divide_less_0_iff)
    then have "trunc_int (c / q) = ?k" by (simp add: trunc_int_def)
    ultimately show ?thesis by (simp add: fmodf_def algebra_simps)
  qed
  show "\<bar>fmodf c q\<bar> < q" using pos neg assms by (cases "0 \<le> c") auto
  show "0 \<le> fmodf c q" if "0 \<le> c" using pos that by simp
  show "fmodf c q \<le> 0" if "c \<le> 0"
  proof (cases "c = 0")
    case True
    then show ?thesis by (simp add: fmodf_def trunc_int_def)
  next
    case False
    with that neg show ?thesis by simp
  qed
qed

text \<open>
  Claim C5. For a created instance, processing a block hands to the inverse transform the
  output of the forward transform (of the block copied to the buffer) with every
  coefficient \<open>i < n * n\<close> replaced as follows: the coefficient is multiplied by the instance's
  \<open>factors[i]\<close>, giving \<open>c\<close>, and \<open>c\<close> is replaced by \<open>c - fmodf(c, qps[i])\<close> exactly when the
  instance's \<open>qps[i]\<close> is positive; with \<open>qps[i] = 0\<close> the product stays as it is, at every
  index. The remainder has the sign of \<open>c\<close> and a magnitude below the step, so the
  subtraction moves \<open>c\<close> toward zero. The forward plan is taken to return \<open>n * n\<close> values.
\<close>

theorem C5_coefficient_step:
  assumes "dctfilterCreate h a = Created d out"
    and "length (d_dct d (copy_in (d_n d) stride src srcp x buffer)) = d_n d * d_n d"
  shows "\<exists>scratch.
      process_block oor is_integral d stride src srcp dstp x (buffer, dst)
        = (d_idct d scratch,
           write_back oor is_integral (d_peak d) (d_n d) stride (d_idct d scratch) dstp x dst)
    \<and> length scratch = d_n d * d_n d
    \<and> length (d_factors d) = d_n d * d_n d \<and> length (d_qps d) = d_n d * d_n d
    \<and> (\<forall>i < d_n d * d_n d.
          (let c = fmul (d_dct d (copy_in (d_n d) stride src srcp x buffer) ! i) (d_factors d ! i);
               q = d_qps d ! i
           in scratch ! i = (if 0 < q then fsub c (fmodf c q) else c)
            \<and> (q = 0 \<longrightarrow> scratch ! i = c)
            \<and> (0 < q \<longrightarrow> \<bar>fmodf c q\<bar> < q \<and> (0 \<le> c \<longrightarrow> 0 \<le> fmodf c q)
                               \<and> (c \<le> 0 \<longrightarrow> fmodf c q \<le> 0))))"
proof -
  let ?coef = "d_dct d (copy_in (d_n d) stride src srcp x buffer)"
  let ?scratch = "filter_coefficients (d_n d) (d_factors d) (d_qps d) ?coef"
  note cf = created_fields[OF assms(1)]
  have pb: "process_block oor is_integral d stride src srcp dstp x (buffer, dst)
        = (d_idct d ?scratch,
           write_back oor is_integral (d_peak d) (d_n d) stride (d_idct d ?scratch) dstp x dst)"
    by (simp add: process_block_eq Let_def)
  have len: "length ?scratch = d_n d * d_n d" using assms(2) by simp
  have step: "let c = fmul (?coef ! i) (d_factors d ! i); q = d_qps d ! i
           in ?scratch ! i = (if 0 < q then fsub c (fmodf c q) else c)
            \<and> (q = 0 \<longrightarrow> ?scratch ! i = c)
            \<and> (0 < q \<longrightarrow> \<bar>fmodf c q\<bar> < q \<and> (0 \<le> c \<longrightarrow> 0 \<le> fmodf c q)
                               \<and> (c \<le> 0 \<longrightarrow> fmodf c q \<le> 0))"
    if i: "i < d_n d * d_n d" for i
  proof -
    have "d_n d * d_n d \<le> length ?coef" using assms(2) by simp
    from filter_coefficients_nth[OF i this, of "d_factors d" "d_qps d"]
    show ?thesis
      using fmodf_sign[of "d_qps d ! i" "fmul (?coef ! i) (d_factors d ! i)"]
      by (simp add: Let_def quantize_def)
  qed
  from pb len cf(1,2) step show ?thesis by blast
qed

theorem C5_witness:
  "\<exists>scratch.
      process_block (\<lambda>v. INT_MIN) True (created_data (dctfilterCreate host_ok args_qps)) 2
          [10, 20, 30, 40] 0 0 0 (replicate 4 0, replicate 4 0)
        = (exact_r2r_2d 2 FFTW_REDFT01 scratch,
           write_back (\<lambda>v. INT_MIN) True 255 2 2 (exact_r2r_2d 2 FFTW_REDFT01 scratch) 0 0 (replicate 4 0))
    \<and> length scratch = 4
    \<and> scratch ! 3 =
         (let c = fmul (exact_r2r_2d 2 FFTW_REDFT10 [10, 20, 30, 40] ! 3)
                    (d_factors (created_data (dctfilterCreate host_ok args_qps)) ! 3);
              q = d_qps (created_data (dctfilterCreate host_ok args_qps)) ! 3
          in if 0 < q then fsub c (fmodf c q) else c)"
proof -
  from create_qps_ex obtain v where c: "dctfilterCreate host_ok args_qps =
     Created \<lparr> d_vi = arg_clip args_qps, d_process = [True, True, True], d_peak = 255,
               d_n = 2, d_qps = v,
               d_factors = expand_factors 2 (arg_factors args_qps),
               d_dct = exact_r2r_2d 2 FFTW_REDFT10, d_idct = exact_r2r_2d 2 FFTW_REDFT01 \<rparr>
       (Inr [DCTFilter])" ..
  have ci: "copy_in 2 2 [10, 20, 30, 40] 0 0 (replicate 4 0) = [10, 20, 30, 40]"
    by (simp add: copy_in_def eval_nat_numeral)
  from C5_coefficient_step[OF c, where stride = 2 and src = "[10, 20, 30, 40]" and srcp = 0
      and x = 0 and buffer = "replicate 4 0" and oor = "\<lambda>v. INT_MIN" and is_integral = True
      and dstp = 0 and dst = "replicate 4 0"]
  obtain scratch where
    "process_block (\<lambda>v. INT_MIN) True (created_data (dctfilterCreate host_ok args_qps)) 2
          [10, 20, 30, 40] 0 0 0 (replicate 4 0, replicate 4 0)
        = (exact_r2r_2d 2 FFTW_REDFT01 scratch,
           write_back (\<lambda>v. INT_MIN) True 255 2 2 (exact_r2r_2d 2 FFTW_REDFT01 scratch) 0 0 (replicate 4 0))"
    "length scratch = 4"
    "\<forall>i<4. (let c = fmul (exact_r2r_2d 2 FFTW_REDFT10 [10, 20, 30, 40] ! i)
                    (d_factors (created_data (dctfilterCreate host_ok args_qps)) ! i);
              q = d_qps (created_data (dctfilterCreate host_ok args_qps)) ! i
          in scratch ! i = (if 0 < q then fsub c (fmodf c q) else c))"
    by (auto simp: c ci Let_def)
  then show ?thesis by (auto simp: Let_def)
qed

section \<open>Writing a block back\<close>

lemma store_sample_float: "store_sample oor False peak v = v"
  by (simp add: store_sample_def)

lemma store_sample_clamped:
  assumes "0 \<le> peak"
  shows "0 \<le> store_sample oor True peak v" "store_sample oor True peak v \<le> of_int peak"
  using assms by (simp_all add: store_sample_def)

lemma store_sample_in_range:
  assumes "INT_MIN \<le> trunc_int (fadd v (1/2))" "trunc_int (fadd v (1/2)) \<le> INT_MAX"
  shows "store_sample oor True peak v = of_int (min (max (trunc_int (fadd v (1/2))) 0) peak)"
  using assms by (simp add: store_sample_def static_cast_int_def)

text \<open>
  Claim C7. For a created instance and a block whose rows do not overlap (\<open>n \<le> stride\<close>),
  processing the block stores in the cell \<open>(yy, xx)\<close> of the output what the inverse transform
  left at \<open>n * yy + xx\<close> of the buffer, \<open>v\<close>, as follows. With \<^verbatim>\<open>float\<close> samples the cell is \<open>v\<close>
  itself, whatever its size. With integer samples the cell lies between 0 and \<open>peak\<close>,
  where \<open>peak = 2 ^ bitsPerSample - 1\<close> (255 for 8 bits), and it is
  \<open>min (max (int (v + 0.5f)) 0) peak\<close> whenever \<open>v + 0.5f\<close> truncates to a value of \<^verbatim>\<open>int\<close>.
  \<^verbatim>\<open>dctfilterGetFrame\<close> takes the integer form exactly for samples of one or two bytes,
  which for a format of the host (\<open>bytesPerSample = (bitsPerSample + 7) div 8\<close>) are the
  integer formats that construction lets through.
\<close>

theorem C7_write_back:
  assumes "dctfilterCreate h a = Created d out"
    and "yy < d_n d" "xx < d_n d" "d_n d \<le> stride" "dstp + stride * yy + x + xx < length dst"
  shows
    "(let v = d_idct d (filter_coefficients (d_n d) (d_factors d) (d_qps d)
                 (d_dct d (copy_in (d_n d) stride src srcp x buffer))) ! (d_n d * yy + xx);
          float_cell = snd (process_block oor False d stride src srcp dstp x (buffer, dst))
                         ! (dstp + stride * yy + x + xx);
          int_cell = snd (process_block oor True d stride src srcp dstp x (buffer, dst))
                         ! (dstp + stride * yy + x + xx);
          t = trunc_int (fadd v (1/2))
      in float_cell = v
       \<and> 0 \<le> int_cell \<and> int_cell \<le> of_int (d_peak d)
       \<and> (INT_MIN \<le> t \<and> t \<le> INT_MAX \<longrightarrow> int_cell = of_int (min (max t 0) (d_peak d))))
     \<and> (let fmt = the (vi_format (arg_clip a))
        in (sampleType fmt = stInteger \<longrightarrow> d_peak d = 2 ^ nat (bitsPerSample fmt) - 1)
         \<and> (sampleType fmt = stInteger \<and> bitsPerSample fmt = 8 \<longrightarrow> d_peak d = 255)
         \<and> the (vi_format (d_vi d)) = fmt
         \<and> (0 < bitsPerSample fmt \<and> bytesPerSample fmt = (bitsPerSample fmt + 7) div 8 \<longrightarrow>
               (bytesPerSample fmt = 1 \<or> bytesPerSample fmt = 2 \<longleftrightarrow> sampleType fmt = stInteger)))
     \<and> dctfilterGetFrame oor (Some scratch) alloc fresh d frm =
         map_option (\<lambda>(b, res). Inr res)
           (process oor (bytesPerSample (the (vi_format (d_vi d))) = 1
                          \<or> bytesPerSample (the (vi_format (d_vi d))) = 2) d frm scratch
              (newVideoFrame2 fresh [if d_process d ! 0 then None else Some frm,
                                      if d_process d ! 1 then None else Some frm,
                                      if d_process d ! 2 then None else Some frm] [0, 1, 2]))"
proof -
  note pk = created_peak[OF assms(1)] and cf = created_fields[OF assms(1)]
  let ?fmt = "the (vi_format (arg_clip a))"
  let ?b4 = "d_idct d (filter_coefficients (d_n d) (d_factors d) (d_qps d)
                 (d_dct d (copy_in (d_n d) stride src srcp x buffer)))"
  have cell: "snd (process_block oor ii d stride src srcp dstp x (buffer, dst))
                ! (dstp + stride * yy + x + xx) = store_sample oor ii (d_peak d) (?b4 ! (d_n d * yy + xx))"
    for ii
    by (simp add: process_block_eq Let_def write_back_nth[OF assms(2,3,4,5)])
  have one: "let v = ?b4 ! (d_n d * yy + xx);
          float_cell = snd (process_block oor False d stride src srcp dstp x (buffer, dst))
                         ! (dstp + stride * yy + x + xx);
          int_cell = snd (process_block oor True d stride src srcp dstp x (buffer, dst))
                         ! (dstp + stride * yy + x + xx);
          t = trunc_int (fadd v (1/2))
      in float_cell = v
       \<and> 0 \<le> int_cell \<and> int_cell \<le> of_int (d_peak d)
       \<and> (INT_MIN \<le> t \<and> t \<le> INT_MAX \<longrightarrow> int_cell = of_int (min (max t 0) (d_peak d)))"
    unfolding Let_def cell
    using store_sample_clamped[OF pk(1)] store_sample_in_range
    by (simp add: store_sample_float)
  from assms(1) obtain n pw ph pr where v: "validate a = Inr (n, pw, ph, pr)"
    by (rule create_success)
  note vf = validate_format[OF v]
  have disp: "bytesPerSample ?fmt = 1 \<or> bytesPerSample ?fmt = 2 \<longleftrightarrow> sampleType ?fmt = stInteger"
    if "0 < bitsPerSample ?fmt" "bytesPerSample ?fmt = (bitsPerSample ?fmt + 7) div 8"
  proof (cases "sampleType ?fmt")
    case stInteger
    with vf(1) that(1) have "1 \<le> bitsPerSample ?fmt" "bitsPerSample ?fmt \<le> 16" by simp_all
    then have "(bitsPerSample ?fmt + 7) div 8 = 1 \<or> (bitsPerSample ?fmt + 7) div 8 = 2" by presburger
    with stInteger that(2) show ?thesis by simp
  next
    case stFloat
    with vf(2) have "bitsPerSample ?fmt = 32" by simp
    with stFloat that(2) show ?thesis by simp
  qed
  have two: "let fmt = ?fmt
        in (sampleType fmt = stInteger \<longrightarrow> d_peak d = 2 ^ nat (bitsPerSample fmt) - 1)
         \<and> (sampleType fmt = stInteger \<and> bitsPerSample fmt = 8 \<longrightarrow> d_peak d = 255)
         \<and> the (vi_format (d_vi d)) = fmt
         \<and> (0 < bitsPerSample fmt \<and> bytesPerSample fmt = (bitsPerSample fmt + 7) div 8 \<longrightarrow>
               (bytesPerSample fmt = 1 \<or> bytesPerSample fmt = 2 \<longleftrightarrow> sampleType fmt = stInteger))"
    unfolding Let_def using pk(2) disp cf(3) by auto
  have three: "dctfilterGetFrame oor (Some scratch) alloc fresh d frm =
         map_option (\<lambda>(b, res). Inr res)
           (process oor (bytesPerSample (the (vi_format (d_vi d))) = 1
                          \<or> bytesPerSample (the (vi_format (d_vi d))) = 2) d frm scratch
              (newVideoFrame2 fresh [if d_process d ! 0 then None else Some frm,
                                      if d_process d ! 1 then None else Some frm,
                                      if d_process d ! 2 then None else Some frm] [0, 1, 2]))"
    by (simp add: dctfilterGetFrame_def Let_def)
  from one two three show ?thesis by (rule conjI[OF _ conjI])
qed

theorem C7_witness:
  "snd (process_block (\<lambda>v. INT_MIN) False (created_data (dctfilterCreate host_ok args_qps)) 2
          [10, 20, 30, 40] 0 0 0 (replicate 4 0, replicate 4 0)) ! 1
     = exact_r2r_2d 2 FFTW_REDFT01
         (filter_coefficients 2 (d_factors (created_data (dctfilterCreate host_ok args_qps)))
            (d_qps (created_data (dctfilterCreate host_ok args_qps)))
            (exact_r2r_2d 2 FFTW_REDFT10 (copy_in 2 2 [10, 20, 30, 40] 0 0 (replicate 4 0)))) ! 1
   \<and> 0 \<le> snd (process_block (\<lambda>v. INT_MIN) True (created_data (dctfilterCreate host_ok args_qps)) 2
          [10, 20, 30, 40] 0 0 0 (replicate 4 0, replicate 4 0)) ! 1
   \<and> snd (process_block (\<lambda>v. INT_MIN) True (created_data (dctfilterCreate host_ok args_qps)) 2
          [10, 20, 30, 40] 0 0 0 (replicate 4 0, replicate 4 0)) ! 1 \<le> 255
   \<and> d_peak (created_data (dctfilterCreate host_ok args_qps)) = 255"
proof -
  from create_qps_ex obtain v where c: "dctfilterCreate host_ok args_qps =
     Created \<lparr> d_vi = arg_clip args_qps, d_process = [True, True, True], d_peak = 255,
               d_n = 2, d_qps = v,
               d_factors = expand_factors 2 (arg_factors args_qps),
               d_dct = exact_r2r_2d 2 FFTW_REDFT10, d_idct = exact_r2r_2d 2 FFTW_REDFT01 \<rparr>
       (Inr [DCTFilter])" ..
  have len: "0 + 2 * 0 + 0 + 1 < length (replicate 4 (0::real))" by simp
  from C7_write_back[OF c, where yy = 0 and xx = 1 and stride = 2 and dstp = 0 and x = 0
      and dst = "replicate 4 0" and src = "[10, 20, 30, 40]" and srcp = 0
      and buffer = "replicate 4 0" and oor = "\<lambda>v. INT_MIN", THEN conjunct1, OF _ _ _ len]
  show ?thesis by (simp add: c Let_def)
qed

section \<open>The size of a rounding error\<close>





section \<open>The round trip of a block\<close>










text \<open>The error budget of the round trip below, for plans without error.\<close>

lemma exact_plans_budget:
  assumes "real n * 2 ^ b \<le> 2 ^ 22"
  shows "real n * (of_int (2 ^ b - 1) / 2 ^ 22) + real (n * n) / 2 ^ 148
           + 0 * (1 + 1 / 2 ^ 24) + 0 \<le> (1::real)"
proof -
  have "real n * 1 \<le> real n * 2 ^ b" by (intro mult_left_mono) simp_all
  with assms have n: "real n \<le> 2 ^ 22" by simp
  have "real (n * n) / 2 ^ 148 = real n * (real n / 2 ^ 148)" by simp
  also have "\<dots> \<le> real n * (2 ^ 22 / 2 ^ 148)"
    using n by (intro mult_left_mono divide_right_mono) simp_all
  also have "\<dots> \<le> real n / 2 ^ 22" by simp
  finally have small: "real (n * n) / 2 ^ 148 \<le> real n / 2 ^ 22" .
  have "real n * (of_int (2 ^ b - 1) / 2 ^ 22) = real n * 2 ^ b / 2 ^ 22 - real n / 2 ^ 22"
    by (simp add: algebra_simps diff_divide_distrib)
  moreover have "real n * 2 ^ b / 2 ^ 22 \<le> 1" using assms by simp
  ultimately show ?thesis using small by linarith
qed





end
